theory Spec2Isabelle
  imports
    Main
    "HOL-Library.Char_ord"
    "HOL-Library.List_Lexorder"
    "HOL-Library.Product_Lexorder"
    "HOL-Library.AList"
    "HOL-Library.Sublist"
begin

unbundle bit_operations_syntax

section \<open>Karnaugh-map minimisation of access patterns (kmap\_simplify.py)\<close>

text \<open>
  The embedding follows \<^verbatim>\<open>src/artifact/kmap_simplify.py\<close> function by function.
  Conventions:
  \<^item> Python's unbounded integers are \<^typ>\<open>int\<close>; \<^verbatim>\<open>&\<close>, \<^verbatim>\<open>|\<close>, \<^verbatim>\<open>^\<close>, \<^verbatim>\<open>~\<close> and
    \<^verbatim>\<open>1 << k\<close> are \<open>AND\<close>, \<open>OR\<close>, \<open>XOR\<close>, \<open>NOT\<close> and \<open>push_bit k 1\<close>; an integer used as a
    condition is true iff it is not \<open>0\<close>.
  \<^item> A string is a \<^typ>\<open>string\<close>; its characters are the code points below 256. An
    argument of type \<^verbatim>\<open>str | None\<close> is a \<^typ>\<open>string option\<close>.
  \<^item> A Python \<^verbatim>\<open>dict\<close> is an association list with distinct keys in insertion order
    (\<^const>\<open>AList.update\<close> overwrites in place or appends, as assignment to a dict does).
  \<^item> A Python \<^verbatim>\<open>set\<close> that the code only tests for membership is a HOL set. A set that
    the code iterates over is the duplicate-free list of its elements; the list
    enumerates the set in the order of insertion. CPython's own iteration order comes
    from the layout of its hash table, which is not modelled: the theorems about the
    functions that receive such a set hold for every list given to them, and the
    theorems about a produced set speak of \<open>set\<close> of the list.
\<close>

subsection \<open>Character classes\<close>

text \<open>\<^verbatim>\<open>\s\<close> of the pattern and the characters removed by \<^verbatim>\<open>str.strip()\<close>: code points
  9 to 13, 28 to 32, 133 and 160.\<close>

definition is_space :: "char \<Rightarrow> bool" where
  "is_space c = (let n = (of_char c :: nat)
     in (9 \<le> n \<and> n \<le> 13) \<or> (28 \<le> n \<and> n \<le> 32) \<or> n = 133 \<or> n = 160)"

text \<open>The class \<^verbatim>\<open>[A-Z]\<close> of the pattern.\<close>

definition is_upper :: "char \<Rightarrow> bool" where
  "is_upper c = (let n = (of_char c :: nat) in 65 \<le> n \<and> n \<le> 90)"

text \<open>\<^verbatim>\<open>str.isalpha()\<close> on one character: the letters among the code points below 256.\<close>

definition isalpha :: "char \<Rightarrow> bool" where
  "isalpha c = (let n = (of_char c :: nat)
     in (65 \<le> n \<and> n \<le> 90) \<or> (97 \<le> n \<and> n \<le> 122) \<or> n = 170 \<or> n = 181 \<or> n = 186
        \<or> (192 \<le> n \<and> n \<le> 214) \<or> (216 \<le> n \<and> n \<le> 246) \<or> 248 \<le> n)"

definition strip :: "string \<Rightarrow> string" where
  "strip s = rev (dropWhile is_space (rev (dropWhile is_space s)))"

subsection \<open>The pattern \<^verbatim>\<open>BRACKET_RE\<close> and \<^verbatim>\<open>findall\<close>\<close>

text \<open>
  \<^verbatim>\<open>BRACKET_RE = re.compile(r"\[\s*([A-Z]+)\s*\]")\<close>.
  \<open>match_bracket s\<close> matches the pattern at the start of \<open>s\<close> and returns the group and
  the text after the match. The three classes (white space, upper-case letters, the
  closing bracket) are pairwise disjoint, so the greedy match is the only candidate:
  giving back a character of one repetition leaves a character that the next part of
  the pattern cannot consume.
\<close>

definition match_bracket :: "string \<Rightarrow> (string \<times> string) option" where
  "match_bracket s =
     (case s of
        [] \<Rightarrow> None
      | c # r \<Rightarrow>
          if c \<noteq> CHR ''['' then None
          else
            let r1 = dropWhile is_space r;
                g = takeWhile is_upper r1;
                r2 = dropWhile is_space (dropWhile is_upper r1)
            in if g = [] then None
               else (case r2 of
                       [] \<Rightarrow> None
                     | d # r3 \<Rightarrow> if d = CHR '']'' then Some (g, r3) else None))"

lemma match_bracket_shorter:
  assumes "match_bracket s = Some (g, r)"
  shows "length r < length s"
proof -
  have le: "length (dropWhile P xs) \<le> length xs" for P and xs :: string
    by (rule length_dropWhile_le)
  from assms obtain c t d where s: "s = c # t"
    and r: "dropWhile is_space (dropWhile is_upper (dropWhile is_space t)) = d # r"
    by (auto simp: match_bracket_def Let_def split: list.splits if_splits)
  have "length (d # r) \<le> length (dropWhile is_upper (dropWhile is_space t))"
    unfolding r [symmetric] by (rule le)
  also have "\<dots> \<le> length (dropWhile is_space t)" by (rule le)
  also have "\<dots> \<le> length t" by (rule le)
  finally show ?thesis by (simp add: s)
qed

text \<open>\<^verbatim>\<open>BRACKET_RE.findall(expr)\<close>: the groups of the non-overlapping matches, scanning
  from the left; after a match the scan goes on behind it, otherwise one character on.\<close>

function findall :: "string \<Rightarrow> string list" where
  "findall [] = []"
| "findall (c # cs) =
     (case match_bracket (c # cs) of
        Some (g, r) \<Rightarrow> g # findall r
      | None \<Rightarrow> findall cs)"
  by pat_completeness auto
termination
  by (relation "measure length") (auto dest: match_bracket_shorter)

subsection \<open>\<^verbatim>\<open>parse_expr_to_minterms\<close>\<close>

text \<open>\<^verbatim>\<open>itertools.product([0, 1], repeat=n)\<close>: all assignments, the first position
  changing slowest.\<close>

fun product01 :: "nat \<Rightarrow> int list list" where
  "product01 0 = [[]]"
| "product01 (Suc n) = map ((#) 0) (product01 n) @ map ((#) 1) (product01 n)"

text \<open>\<^verbatim>\<open>{variables[i]: assignment[i] for i in range(len(variables))}\<close>: a later entry
  for the same key replaces an earlier one.\<close>

definition var_assignment :: "string \<Rightarrow> int list \<Rightarrow> char \<rightharpoonup> int" where
  "var_assignment variables assignment = map_of (rev (zip variables assignment))"

text \<open>The inner loops: some term has all its factors assigned 1.\<close>

definition term_satisfied :: "char set list \<Rightarrow> (char \<rightharpoonup> int) \<Rightarrow> bool" where
  "term_satisfied terms va = (\<exists>t \<in> set terms. \<forall>factor \<in> t. va factor = Some 1)"

text \<open>\<^verbatim>\<open>sum(assignment[i] * (2 ** (len(variables) - 1 - i)) for i in range(len(variables)))\<close>\<close>

definition minterm_of :: "int list \<Rightarrow> int" where
  "minterm_of assignment =
     (\<Sum>i \<leftarrow> [0..<length assignment]. assignment ! i * 2 ^ (length assignment - 1 - i))"

definition parse_terms :: "string \<Rightarrow> char set list" where
  "parse_terms expr = map (\<lambda>m. set (filter isalpha m)) (findall expr)"

definition parse_expr_to_minterms :: "string option \<Rightarrow> string \<Rightarrow> int list" where
  "parse_expr_to_minterms expr variables =
     (case expr of
        None \<Rightarrow> []
      | Some e \<Rightarrow>
          if e = [] \<or> strip e \<in> {[], ''-''} then []
          else
            let terms = parse_terms e
            in if terms = [] then []
               else map minterm_of
                      (filter (\<lambda>a. term_satisfied terms (var_assignment variables a))
                         (product01 (length variables))))"

subsection \<open>\<^verbatim>\<open>adjacent_cells\<close>\<close>

text \<open>\<^verbatim>\<open>bin(x).count('1')\<close>: \<^verbatim>\<open>bin\<close> writes a sign and the binary digits of the absolute
  value, so the count is the number of 1 digits of \<open>\<bar>x\<bar>\<close>.\<close>

fun popcount :: "nat \<Rightarrow> nat" where
  "popcount n = (if n = 0 then 0 else n mod 2 + popcount (n div 2))"

declare popcount.simps [simp del]

definition bin_count1 :: "int \<Rightarrow> nat" where
  "bin_count1 x = popcount (nat \<bar>x\<bar>)"

definition adjacent_cells :: "int \<Rightarrow> int \<Rightarrow> bool" where
  "adjacent_cells cell1 cell2 = (bin_count1 (cell1 XOR cell2) = 1)"

subsection \<open>\<^verbatim>\<open>find_prime_implicants\<close>\<close>

text \<open>An implicant is the pair \<^verbatim>\<open>(term, mask)\<close>; a level of the search is the dict
  \<^verbatim>\<open>term -> mask\<close>.\<close>

type_synonym implicant = "int \<times> int"

text \<open>The index pairs \<^verbatim>\<open>i < j\<close> of the two nested \<^verbatim>\<open>for\<close> loops, in the order in which
  the loops visit them.\<close>

fun pairs :: "'a list \<Rightarrow> ('a \<times> 'a) list" where
  "pairs [] = []"
| "pairs (x # xs) = map (Pair x) xs @ pairs xs"

text \<open>The body of the inner loop, on the state \<^verbatim>\<open>(next_level, used)\<close>.\<close>

definition combine_step ::
  "implicant \<times> implicant \<Rightarrow> implicant list \<times> int set \<Rightarrow> implicant list \<times> int set" where
  "combine_step ij st =
     (case ij of ((term1, mask1), (term2, mask2)) \<Rightarrow>
        (case st of (next_level, used) \<Rightarrow>
           if adjacent_cells term1 term2 then
             let diff_bit = term1 XOR term2;
                 new_term = term1 AND term2;
                 new_mask = mask1 AND mask2 AND NOT diff_bit
             in (AList.update new_term new_mask next_level, insert term2 (insert term1 used))
           else (next_level, used)))"

definition combine_level :: "implicant list \<Rightarrow> implicant list \<times> int set" where
  "combine_level items = fold combine_step (pairs items) ([], {})"

text \<open>The terms of a level that no merge of the level used.\<close>

definition unused_terms :: "implicant list \<Rightarrow> int set \<Rightarrow> implicant list" where
  "unused_terms current_level used = filter (\<lambda>(t, m). t \<notin> used) current_level"

subsubsection \<open>Facts about adjacency and one level\<close>

lemma popcount_0 [simp]: "popcount 0 = 0"
  by (simp add: popcount.simps)

lemma popcount_pos: "n \<noteq> 0 \<Longrightarrow> popcount n = n mod 2 + popcount (n div 2)"
  by (subst popcount.simps) simp

lemma popcount_eq_0_iff [simp]: "popcount n = 0 \<longleftrightarrow> n = 0"
proof (induction n rule: popcount.induct)
  case (1 n)
  show ?case
  proof (cases "n = 0")
    case True then show ?thesis by simp
  next
    case False
    with 1 have IH: "popcount (n div 2) = 0 \<longleftrightarrow> n div 2 = 0" by simp
    have "n mod 2 = 0 \<and> n div 2 = 0 \<longleftrightarrow> n = 0" by presburger
    with False IH show ?thesis by (simp add: popcount_pos)
  qed
qed

lemma popcount_pow2 [simp]: "popcount (2 ^ k) = Suc 0"
  by (induction k) (simp_all add: popcount_pos)

lemma popcount_eq_1D: "popcount n = Suc 0 \<Longrightarrow> \<exists>k. n = 2 ^ k"
proof (induction n rule: popcount.induct)
  case (1 n)
  from "1.prems" have n: "n \<noteq> 0" by (cases "n = 0") auto
  with "1.prems" have eq: "n mod 2 + popcount (n div 2) = Suc 0"
    by (simp add: popcount_pos)
  show ?case
  proof (cases "n mod 2 = 0")
    case True
    with eq have "popcount (n div 2) = Suc 0" by simp
    with 1 n obtain k where "n div 2 = 2 ^ k" by blast
    with True have "n = 2 ^ Suc k" by auto
    then show ?thesis by blast
  next
    case False
    then have "n mod 2 = 1" by presburger
    with eq have "n div 2 = 0" by simp
    with \<open>n mod 2 = 1\<close> have "n = 2 ^ 0"
      using div_mult_mod_eq [of n 2] by simp
    then show ?thesis by blast
  qed
qed

lemma popcount_eq_1_iff: "popcount n = Suc 0 \<longleftrightarrow> (\<exists>k. n = 2 ^ k)"
  by (auto dest: popcount_eq_1D)

lemma xor_pow2_int:
  fixes x :: int
  assumes "\<not> bit x k"
  shows "x XOR 2 ^ k = x + 2 ^ k" and "x AND (x XOR 2 ^ k) = x"
proof -
  have "x AND 2 ^ k = 0"
    using assms by (intro bit_eqI) (auto simp: bit_simps)
  then show "x XOR 2 ^ k = x + 2 ^ k"
    by (simp add: disjunctive_add_eq_xor)
  show "x AND (x XOR 2 ^ k) = x"
    using assms by (intro bit_eqI) (auto simp: bit_simps)
qed

lemma xor_eq_pow2_cases:
  fixes x y :: int
  assumes "x XOR y = 2 ^ k"
  shows "(x AND y = x \<and> y = x + 2 ^ k) \<or> (x AND y = y \<and> x = y + 2 ^ k)"
proof -
  have "x XOR (x XOR y) = y" "y XOR (x XOR y) = x"
    by (intro bit_eqI; auto simp: bit_simps)+
  with assms have y: "y = x XOR 2 ^ k" and x: "x = y XOR 2 ^ k" 
    by simp_all
  show ?thesis
  proof (cases "bit x k")
    case False
    from xor_pow2_int [OF False] y show ?thesis by simp
  next
    case True
    then have "\<not> bit y k" using y by (simp add: bit_simps)
    from xor_pow2_int [OF this] x show ?thesis by (simp add: and.commute)
  qed
qed

lemma adjacent_cells_iff: "adjacent_cells a b \<longleftrightarrow> (\<exists>k. \<bar>a XOR b\<bar> = 2 ^ k)"
proof -
  have "(\<exists>k. nat \<bar>a XOR b\<bar> = 2 ^ k) \<longleftrightarrow> (\<exists>k. \<bar>a XOR b\<bar> = 2 ^ k)"
    by (metis abs_ge_zero int_nat_eq nat_int of_nat_numeral of_nat_power)
  then show ?thesis
    by (simp add: adjacent_cells_def bin_count1_def popcount_eq_1_iff)
qed

text \<open>Two adjacent cells of the same sign: the conjunction is the smaller one.\<close>
lemma adjacent_same_sign:
  assumes "adjacent_cells a b" and "(a < 0) = (b < 0)"
  shows "a \<noteq> b \<and> a AND b = min a b"
proof -
  from assms(2) have "0 \<le> a XOR b" by auto
  with assms(1) obtain k where "a XOR b = 2 ^ k"
    by (auto simp: adjacent_cells_iff)
  from xor_eq_pow2_cases [OF this] show ?thesis
    by (auto simp: min_def)
qed


lemma adjacent_cells_sym: "adjacent_cells a b = adjacent_cells b a"
  by (simp add: adjacent_cells_def xor.commute)

lemma adjacent_cells_irrefl [simp]: "\<not> adjacent_cells a a"
  by (simp add: adjacent_cells_def bin_count1_def)

lemma set_pairs_subset: "set (pairs xs) \<subseteq> set xs \<times> set xs"
  by (induction xs) auto

lemma set_pairs_total:
  "x \<in> set xs \<Longrightarrow> y \<in> set xs \<Longrightarrow> x \<noteq> y \<Longrightarrow> (x, y) \<in> set (pairs xs) \<or> (y, x) \<in> set (pairs xs)"
  by (induction xs) auto

lemma fold_combine_keys:
  "fst ` set (fst (fold combine_step ps st)) =
     fst ` set (fst st) \<union>
     {t1 AND t2 | t1 m1 t2 m2. ((t1, m1), (t2, m2)) \<in> set ps \<and> adjacent_cells t1 t2}"
proof (induction ps arbitrary: st)
  case Nil
  show ?case by simp
next
  case (Cons p ps)
  obtain t1 m1 t2 m2 where p: "p = ((t1, m1), (t2, m2))" by (metis surj_pair)
  obtain nl u where st: "st = (nl, u)" by (cases st)
  show ?case
    unfolding fold_simps Cons.IH
    by (auto simp: p st combine_step_def Let_def dom_update)
qed

lemma fold_combine_used:
  "snd (fold combine_step ps st) =
     snd st \<union>
     {t. \<exists>t1 m1 t2 m2. ((t1, m1), (t2, m2)) \<in> set ps \<and> adjacent_cells t1 t2 \<and> (t = t1 \<or> t = t2)}"
proof (induction ps arbitrary: st)
  case Nil
  show ?case by simp
next
  case (Cons p ps)
  obtain t1 m1 t2 m2 where p: "p = ((t1, m1), (t2, m2))" by (metis surj_pair)
  obtain nl u where st: "st = (nl, u)" by (cases st)
  show ?case
    unfolding fold_simps Cons.IH
    by (auto simp: p st combine_step_def Let_def)
qed

lemma combine_level_keys:
  "fst ` set (fst (combine_level items)) =
     {t1 AND t2 | t1 t2. t1 \<in> fst ` set items \<and> t2 \<in> fst ` set items \<and> adjacent_cells t1 t2}"
  (is "?L = ?R")
proof
  show "?L \<subseteq> ?R"
  proof
    fix x assume "x \<in> ?L"
    then obtain t1 m1 t2 m2 where "x = t1 AND t2" "((t1, m1), (t2, m2)) \<in> set (pairs items)"
      "adjacent_cells t1 t2"
      unfolding combine_level_def fold_combine_keys by auto
    moreover from this have "(t1, m1) \<in> set items" "(t2, m2) \<in> set items"
      using set_pairs_subset [of items] by auto
    ultimately show "x \<in> ?R" by force
  qed
  show "?R \<subseteq> ?L"
  proof
    fix x assume "x \<in> ?R"
    then obtain t1 m1 t2 m2 where x: "x = t1 AND t2" and i1: "(t1, m1) \<in> set items"
      and i2: "(t2, m2) \<in> set items" and adj: "adjacent_cells t1 t2"
      by auto
    from adj have "t1 \<noteq> t2" by auto
    with i1 i2 have "((t1, m1), (t2, m2)) \<in> set (pairs items) \<or> ((t2, m2), (t1, m1)) \<in> set (pairs items)"
      by (intro set_pairs_total) auto
    then show "x \<in> ?L"
    proof
      assume "((t1, m1), (t2, m2)) \<in> set (pairs items)"
      with adj x show ?thesis
        unfolding combine_level_def fold_combine_keys by auto
    next
      assume "((t2, m2), (t1, m1)) \<in> set (pairs items)"
      moreover have "x = t2 AND t1" by (simp add: x and.commute)
      moreover have "adjacent_cells t2 t1" using adj by (simp add: adjacent_cells_sym)
      ultimately show ?thesis
        unfolding combine_level_def fold_combine_keys by auto
    qed
  qed
qed

lemma combine_level_used:
  "snd (combine_level items) =
     {t \<in> fst ` set items. \<exists>t' \<in> fst ` set items. adjacent_cells t t'}"
  (is "?L = ?R")
proof
  show "?L \<subseteq> ?R"
  proof
    fix t assume "t \<in> ?L"
    then obtain t1 m1 t2 m2 where p: "((t1, m1), (t2, m2)) \<in> set (pairs items)"
      and adj: "adjacent_cells t1 t2" and t: "t = t1 \<or> t = t2"
      unfolding combine_level_def fold_combine_used by auto
    from p have "(t1, m1) \<in> set items" "(t2, m2) \<in> set items"
      using set_pairs_subset [of items] by auto
    then have "t1 \<in> fst ` set items" "t2 \<in> fst ` set items" by force+
    moreover have "adjacent_cells t2 t1" using adj by (simp add: adjacent_cells_sym)
    ultimately show "t \<in> ?R" using adj t by blast
  qed
  show "?R \<subseteq> ?L"
  proof
    fix t assume "t \<in> ?R"
    then obtain m t' m' where i1: "(t, m) \<in> set items"
      and i2: "(t', m') \<in> set items" and adj: "adjacent_cells t t'"
      by auto
    from adj have "t \<noteq> t'" by auto
    with i1 i2 have "((t, m), (t', m')) \<in> set (pairs items) \<or> ((t', m'), (t, m)) \<in> set (pairs items)"
      by (intro set_pairs_total) auto
    then show "t \<in> ?L"
    proof
      assume "((t, m), (t', m')) \<in> set (pairs items)"
      with adj show ?thesis
        unfolding combine_level_def fold_combine_used by auto
    next
      assume "((t', m'), (t, m)) \<in> set (pairs items)"
      moreover have "adjacent_cells t' t" using adj by (simp add: adjacent_cells_sym)
      ultimately show ?thesis
        unfolding combine_level_def fold_combine_used by auto
    qed
  qed
qed

text \<open>The level loop stops: while a level has negative terms their number shrinks, and
  afterwards the number of terms shrinks.\<close>

lemma combine_level_decreases:
  assumes "current_level \<noteq> []" and "combine_level current_level = (next_level, used)"
  shows "((next_level, ps'), (current_level, ps)) \<in>
           measures [\<lambda>(cl, ps). card {t \<in> fst ` set cl. t < 0}, \<lambda>(cl, ps). card (fst ` set cl)]"
proof -
  define K where "K = fst ` set current_level"
  define K' where "K' = fst ` set next_level"
  define N where "N = {t \<in> K. t < 0}"
  define N' where "N' = {t \<in> K'. t < 0}"
  have finK: "finite K" and finN: "finite N" and K: "K \<noteq> {}"
    using assms(1) by (auto simp: K_def N_def)
  have K': "K' = {t1 AND t2 | t1 t2. t1 \<in> K \<and> t2 \<in> K \<and> adjacent_cells t1 t2}"
    using combine_level_keys [of current_level] assms(2) by (simp add: K_def K'_def)
  have N'sub: "N' \<subseteq> N - {Max N}"
  proof
    fix x assume "x \<in> N'"
    then obtain a b where x: "x = a AND b" "a \<in> K" "b \<in> K" "adjacent_cells a b" "x < 0"
      by (auto simp: N'_def K')
    then have neg: "a < 0" "b < 0" by (simp_all add: and_negative_int_iff)
    with x have ab: "a \<noteq> b" "x = min a b"
      using adjacent_same_sign [of a b] by auto
    from neg x have "a \<in> N" "b \<in> N" by (auto simp: N_def)
    then have "a \<le> Max N" "b \<le> Max N" using finN by auto
    with ab \<open>a \<in> N\<close> \<open>b \<in> N\<close> show "x \<in> N - {Max N}" by (auto simp: min_def)
  qed
  show ?thesis
  proof (cases "N = {}")
    case False
    then have "Max N \<in> N" using finN by simp
    with N'sub have "N' \<subset> N" by auto
    then have "card N' < card N" using finN by (rule psubset_card_mono [rotated])
    then show ?thesis by (simp add: N_def N'_def K_def K'_def)
  next
    case True
    with N'sub have N': "N' = {}" by auto
    have "K' \<subseteq> K - {Max K}"
    proof
      fix x assume "x \<in> K'"
      then obtain a b where x: "x = a AND b" "a \<in> K" "b \<in> K" "adjacent_cells a b"
        by (auto simp: K')
      with True have "\<not> a < 0" "\<not> b < 0" by (auto simp: N_def)
      with x have ab: "a \<noteq> b" "x = min a b"
        using adjacent_same_sign [of a b] by auto
      from x have "a \<le> Max K" "b \<le> Max K" using finK by auto
      with ab x show "x \<in> K - {Max K}" by (auto simp: min_def)
    qed
    moreover have "Max K \<in> K" using finK K by simp
    ultimately have "K' \<subset> K" by auto
    then have "card K' < card K" using finK by (rule psubset_card_mono [rotated])
    moreover have "card N' = card N" using True N' by simp
    ultimately show ?thesis by (simp add: N_def N'_def K_def K'_def)
  qed
qed

text \<open>The \<^verbatim>\<open>while current_level:\<close> loop, on the state
  \<^verbatim>\<open>(current_level, prime_implicants)\<close>.\<close>

function qm_loop :: "implicant list \<Rightarrow> implicant list \<Rightarrow> implicant list" where
  "qm_loop current_level prime_implicants =
     (if current_level = [] then prime_implicants
      else
        (case combine_level current_level of
           (next_level, used) \<Rightarrow>
             qm_loop next_level (prime_implicants @ unused_terms current_level used)))"
  by pat_completeness auto
termination
proof (relation "measures [\<lambda>(cl, ps). card {t \<in> fst ` set cl. t < 0}, \<lambda>(cl, ps). card (fst ` set cl)]", goal_cases)
  case 1
  show ?case by simp
next
  case (2 current_level prime_implicants next_level used)
  then have "combine_level current_level = (next_level, used)" by simp
  with 2(1) show ?case by (rule combine_level_decreases)
qed

declare qm_loop.simps [simp del]

text \<open>\<^verbatim>\<open>{minterm: minterm for minterm in minterms}\<close>\<close>

definition initial_level :: "int list \<Rightarrow> implicant list" where
  "initial_level minterms = fold (\<lambda>minterm d. AList.update minterm minterm d) minterms []"

definition find_prime_implicants :: "int list \<Rightarrow> implicant list" where
  "find_prime_implicants minterms =
     (if minterms = [] then [] else qm_loop (initial_level minterms) [])"

subsection \<open>\<^verbatim>\<open>implicant_to_expr\<close>\<close>

definition factors_of :: "implicant \<Rightarrow> string \<Rightarrow> string" where
  "factors_of implicant variables =
     (case implicant of (trm, msk) \<Rightarrow>
        [variables ! i. i \<leftarrow> [0..<length variables],
           msk AND push_bit (length variables - 1 - i) 1 \<noteq> 0,
           trm AND push_bit (length variables - 1 - i) 1 \<noteq> 0])"

definition implicant_to_expr :: "implicant \<Rightarrow> string \<Rightarrow> string" where
  "implicant_to_expr implicant variables =
     (let factors = factors_of implicant variables
      in if factors = [] then [] else ''['' @ factors @ '']'')"

subsection \<open>\<^verbatim>\<open>get_covered_minterms\<close>\<close>

definition dont_care_bits :: "int \<Rightarrow> nat \<Rightarrow> nat list" where
  "dont_care_bits msk num_vars =
     [num_vars - 1 - i. i \<leftarrow> [0..<num_vars], msk AND push_bit (num_vars - 1 - i) 1 = 0]"

text \<open>The inner loop: set the don't-care bits whose assigned value is not 0.\<close>

definition set_dont_cares :: "int \<Rightarrow> nat list \<Rightarrow> int list \<Rightarrow> int" where
  "set_dont_cares trm dcb dont_care_assignment =
     fold (\<lambda>(pos, bit_value) minterm. if bit_value \<noteq> 0 then minterm OR push_bit pos 1 else minterm)
       (zip dcb dont_care_assignment) trm"

definition get_covered_minterms :: "implicant \<Rightarrow> nat \<Rightarrow> int set" where
  "get_covered_minterms implicant num_vars =
     (case implicant of (trm, msk) \<Rightarrow>
        let dcb = dont_care_bits msk num_vars
        in set (map (set_dont_cares trm dcb) (product01 (length dcb))))"

subsection \<open>\<^verbatim>\<open>essential_prime_implicant_cover\<close>\<close>

text \<open>\<^verbatim>\<open>d[k]\<close> for a dict \<open>d\<close>. Python raises \<^verbatim>\<open>KeyError\<close> for a key that \<open>d\<close> does not
  have; the lemmas \<open>coverage_lookup_defined\<close> and \<open>index_of_lookup_defined\<close> below show that
  each lookup of the function is by a key of its dict.\<close>

definition dict_get :: "('k \<times> 'v) list \<Rightarrow> 'k \<Rightarrow> 'v" where
  "dict_get d k = the (map_of d k)"

text \<open>\<^verbatim>\<open>s.add(x)\<close> on a set that is iterated over later.\<close>

definition set_add :: "'a list \<Rightarrow> 'a \<Rightarrow> 'a list" where
  "set_add xs x = (if x \<in> set xs then xs else xs @ [x])"

text \<open>The coverage table: implicant -> covered minterms, restricted to the target.\<close>

definition coverage_table :: "implicant list \<Rightarrow> int list \<Rightarrow> nat \<Rightarrow> (implicant \<times> int set) list" where
  "coverage_table prime_implicants minterms num_vars =
     fold (\<lambda>pi d. AList.update pi (get_covered_minterms pi num_vars \<inter> set minterms) d)
       prime_implicants []"

text \<open>\<^verbatim>\<open>[pi for pi, cov in coverage.items() if m in cov]\<close>\<close>

definition covering :: "(implicant \<times> int set) list \<Rightarrow> int \<Rightarrow> implicant list" where
  "covering coverage m = map fst (filter (\<lambda>(pi, cov). m \<in> cov) coverage)"

text \<open>The body of the loop that collects the essential implicants, on the state
  \<^verbatim>\<open>(essential, covered_by_essential)\<close>.\<close>

definition essential_step ::
  "(implicant \<times> int set) list \<Rightarrow> int \<Rightarrow> implicant list \<times> int set \<Rightarrow> implicant list \<times> int set" where
  "essential_step coverage m st =
     (case st of (essential, covered_by_essential) \<Rightarrow>
        (case covering coverage m of
           [epi] \<Rightarrow>
             if epi \<notin> set essential
             then (essential @ [epi], covered_by_essential \<union> dict_get coverage epi)
             else (essential, covered_by_essential)
         | _ \<Rightarrow> (essential, covered_by_essential)))"

definition essentials ::
  "(implicant \<times> int set) list \<Rightarrow> int list \<Rightarrow> implicant list \<times> int set" where
  "essentials coverage minterms = fold (essential_step coverage) minterms ([], {})"

text \<open>\<^verbatim>\<open>{pi: i for i, pi in enumerate(pi_list)}\<close>\<close>

definition index_table :: "implicant list \<Rightarrow> (implicant \<times> nat) list" where
  "index_table pi_list = fold (\<lambda>(i, pi) d. AList.update pi i d) (enumerate 0 pi_list) []"

text \<open>\<^verbatim>\<open>literal_counts\<close>: per implicant, \<^verbatim>\<open>bin(mask).count("1")\<close>.\<close>

definition literal_counts_of :: "implicant list \<Rightarrow> nat list" where
  "literal_counts_of pi_list = map (\<lambda>(t, msk). bin_count1 msk) pi_list"

text \<open>The body of the loop that builds the Petrick clauses. A clause is the list of the
  indices of the implicants that cover the minterm, without those of the essential
  implicants; a minterm with no covering implicant is skipped (\<^verbatim>\<open>continue\<close>), and so
  is a clause that is empty after the essential implicants are removed.\<close>

definition clause_step ::
  "(implicant \<times> int set) list \<Rightarrow> (implicant \<times> nat) list \<Rightarrow> implicant list \<Rightarrow> int \<Rightarrow>
     nat list list \<Rightarrow> nat list list" where
  "clause_step coverage index_of essential m clauses =
     (let idxs = fold (\<lambda>pi acc. set_add acc (dict_get index_of pi)) (covering coverage m) []
      in if idxs = [] then clauses
         else
           let ess = set (map (dict_get index_of) (filter (\<lambda>epi. epi \<in> fst ` set index_of) essential));
               idxs' = filter (\<lambda>i. i \<notin> ess) idxs
           in if idxs' \<noteq> [] then clauses @ [idxs'] else clauses)"

definition build_clauses ::
  "(implicant \<times> int set) list \<Rightarrow> (implicant \<times> nat) list \<Rightarrow> implicant list \<Rightarrow> int list \<Rightarrow>
     nat list list" where
  "build_clauses coverage index_of essential remaining =
     fold (clause_step coverage index_of essential) remaining []"

text \<open>\<^verbatim>\<open>product_cost\<close>, also the sort key of \<^verbatim>\<open>reduce_products\<close>: the number of
  implicants, then the sum of their literal counts. A product is a frozenset of indices.\<close>

definition product_cost :: "nat list \<Rightarrow> nat set \<Rightarrow> nat \<times> nat" where
  "product_cost literal_counts p = (card p, (\<Sum>i \<in> p. literal_counts ! i))"

text \<open>\<^verbatim>\<open>reduce_products\<close>: in the order of the cost, keep a product unless it contains a
  product kept before. \<^const>\<open>sort_key\<close> is stable, as \<^verbatim>\<open>sorted\<close> is.\<close>

definition keep_minimal :: "nat set \<Rightarrow> nat set list \<Rightarrow> nat set list" where
  "keep_minimal p minimal = (if \<exists>q \<in> set minimal. q \<subseteq> p then minimal else minimal @ [p])"

definition reduce_products :: "nat list \<Rightarrow> nat set list \<Rightarrow> nat set list" where
  "reduce_products literal_counts prods =
     fold keep_minimal (sort_key (product_cost literal_counts) prods) []"

text \<open>One clause of Petrick's method: every product with every index of the clause.\<close>

definition multiply_clause :: "nat set list \<Rightarrow> nat list \<Rightarrow> nat set list" where
  "multiply_clause products clause =
     fold (\<lambda>p new_products. fold (\<lambda>idx np. set_add np (insert idx p)) clause new_products)
       products []"

text \<open>The loop over the clauses; \<open>None\<close> is the early exit \<^verbatim>\<open>return essential\<close> taken when
  no product is left.\<close>

fun petrick :: "nat list \<Rightarrow> nat list list \<Rightarrow> nat set list \<Rightarrow> nat set list option" where
  "petrick literal_counts [] products = Some products"
| "petrick literal_counts (clause # clauses) products =
     (let products' = reduce_products literal_counts (multiply_clause products clause)
      in if products' = [] then None else petrick literal_counts clauses products')"

text \<open>The choice among the final products: those of the least cost, and among them the
  one whose sorted index tuple is least. \<^verbatim>\<open>min\<close> returns the first least element, as
  \<^const>\<open>arg_min_list\<close> does; on no products it raises \<^verbatim>\<open>ValueError\<close>, which lemma
  \<open>petrick_nonempty\<close> excludes.\<close>

definition choose_product :: "nat list \<Rightarrow> nat set list \<Rightarrow> nat set" where
  "choose_product literal_counts products =
     (let best_cost = Min (product_cost literal_counts ` set products);
          best_products = filter (\<lambda>p. product_cost literal_counts p = best_cost) products
      in arg_min_list sorted_list_of_set best_products)"

definition essential_prime_implicant_cover ::
  "implicant list \<Rightarrow> int list \<Rightarrow> nat \<Rightarrow> implicant list" where
  "essential_prime_implicant_cover prime_implicants minterms num_vars =
     (if prime_implicants = [] \<or> minterms = [] then prime_implicants
      else
        let coverage = coverage_table prime_implicants minterms num_vars;
            (essential, covered_by_essential) = essentials coverage minterms;
            remaining = filter (\<lambda>m. m \<notin> covered_by_essential) minterms
        in if remaining = [] then essential
           else
             let pi_list = prime_implicants;
                 index_of = index_table pi_list;
                 literal_counts = literal_counts_of pi_list;
                 clauses = build_clauses coverage index_of essential remaining
             in if clauses = [] then essential
                else
                  (case petrick literal_counts clauses [{}] of
                     None \<Rightarrow> essential
                   | Some products \<Rightarrow>
                       let chosen = choose_product literal_counts products
                       in essential @ map (\<lambda>i. pi_list ! i) (sorted_list_of_set chosen)))"

subsection \<open>\<^verbatim>\<open>minimize_karnaugh\<close>\<close>

text \<open>The last lines of the function, which format the cover: the expressions of the
  implicants that are not empty, sorted as strings and joined.\<close>

definition format_cover :: "implicant list \<Rightarrow> string \<Rightarrow> string" where
  "format_cover minimal_implicants variables =
     (let terms = filter (\<lambda>expr. expr \<noteq> [])
                    (map (\<lambda>pi. implicant_to_expr pi variables) minimal_implicants)
      in concat (sort terms))"

definition minimize_karnaugh :: "int list \<Rightarrow> string \<Rightarrow> string" where
  "minimize_karnaugh minterms variables =
     (if minterms = [] then []
      else
        let num_vars = length variables
        in if num_vars > 6 then []
           else
             let prime_implicants = find_prime_implicants minterms
             in if prime_implicants = [] then []
                else
                  let minimal_implicants =
                        essential_prime_implicant_cover prime_implicants minterms num_vars
                  in format_cover minimal_implicants variables)"

subsection \<open>\<^verbatim>\<open>extract_variables\<close> and \<^verbatim>\<open>compute_kmap\<close>\<close>

definition extract_variables :: "string option \<Rightarrow> char set" where
  "extract_variables expr =
     (case expr of
        None \<Rightarrow> {}
      | Some e \<Rightarrow> if e = [] then {} else set (concat (map (filter isalpha) (findall e))))"

text \<open>The truth value of an argument of type \<^verbatim>\<open>str | None\<close>.\<close>

definition truthy :: "string option \<Rightarrow> bool" where
  "truthy expr = (case expr of None \<Rightarrow> False | Some e \<Rightarrow> e \<noteq> [])"

text \<open>\<^verbatim>\<open>variables.index("P") if "P" in variables else -1\<close>\<close>

definition p_index_of :: "string \<Rightarrow> int" where
  "p_index_of variables =
     (if CHR ''P'' \<in> set variables
      then int (length (takeWhile (\<lambda>v. v \<noteq> CHR ''P'') variables))
      else - 1)"

text \<open>The innermost loop: the bits of \<^verbatim>\<open>reset_term\<close>, given over the variables other than
  \<^verbatim>\<open>P\<close>, moved to the positions of those variables in the whole universe. The state is
  \<^verbatim>\<open>(shifted_reset, reset_pos)\<close>.\<close>

definition shift_reset :: "string \<Rightarrow> int \<Rightarrow> int" where
  "shift_reset variables reset_term =
     fst (fold
       (\<lambda>(i, var) (shifted_reset, reset_pos).
          if var \<noteq> CHR ''P'' then
            let bit_pos = length variables - 1 - i;
                reset_bit_pos = length (filter (\<lambda>v. v \<noteq> CHR ''P'') variables) - 1 - reset_pos
            in (if reset_term AND push_bit reset_bit_pos 1 \<noteq> 0
                then shifted_reset OR push_bit bit_pos 1 else shifted_reset,
                reset_pos + 1)
          else (shifted_reset, reset_pos))
       (enumerate 0 variables) (0, 0))"

text \<open>The body of the loop over the minterms of the base expression.\<close>

definition expand_step :: "string \<Rightarrow> int list \<Rightarrow> int \<Rightarrow> int list \<Rightarrow> int list" where
  "expand_step variables reset_minterms minterm expanded_minterms =
     (let p_index = p_index_of variables
      in if p_index \<ge> 0 then
           let p_bit = push_bit (length variables - 1 - nat p_index) (1 :: int)
           in if minterm AND p_bit \<noteq> 0 then
                let base_without_p = minterm AND NOT p_bit
                in fold (\<lambda>reset_term acc.
                           set_add acc (base_without_p OR shift_reset variables reset_term))
                     reset_minterms expanded_minterms
              else set_add expanded_minterms minterm
         else set_add expanded_minterms minterm)"

definition expand_minterms :: "string \<Rightarrow> int list \<Rightarrow> int list \<Rightarrow> int list" where
  "expand_minterms variables reset_minterms base_minterms =
     fold (expand_step variables reset_minterms) base_minterms []"

definition universe :: "string option \<Rightarrow> string option \<Rightarrow> char set" where
  "universe base_expr reset_expr =
     (if truthy base_expr then extract_variables base_expr else {}) \<union>
     (if truthy reset_expr then extract_variables reset_expr else {})"

definition compute_kmap :: "string option \<Rightarrow> string option \<Rightarrow> string" where
  "compute_kmap base_expr reset_expr =
     (let all_vars = universe base_expr reset_expr
      in if all_vars = {} then []
         else
           let variables = sorted_list_of_set all_vars;
               base_minterms = parse_expr_to_minterms base_expr variables
           in if CHR ''P'' \<in> all_vars \<and> truthy reset_expr then
                let reset_minterms =
                      parse_expr_to_minterms reset_expr (filter (\<lambda>v. v \<noteq> CHR ''P'') variables)
                in minimize_karnaugh (expand_minterms variables reset_minterms base_minterms)
                     variables
              else minimize_karnaugh base_minterms variables)"

section \<open>Facts about the model\<close>

subsection \<open>Substitution of the pivot\<close>

lemma set_set_add [simp]: "set (set_add xs x) = insert x (set xs)"
  by (auto simp: set_add_def)

lemma set_fold_set_add:
  "set (fold (\<lambda>x acc. set_add acc (f x)) xs acc) = set acc \<union> f ` set xs"
  by (induction xs arbitrary: acc) auto

text \<open>The bit of \<^verbatim>\<open>P\<close> in a minterm over \<open>variables\<close> (\<^verbatim>\<open>p_bit\<close> in the source).\<close>

definition p_bit_of :: "string \<Rightarrow> int" where
  "p_bit_of variables = push_bit (length variables - 1 - nat (p_index_of variables)) 1"

lemma p_index_of_nonneg_iff: "p_index_of variables \<ge> 0 \<longleftrightarrow> CHR ''P'' \<in> set variables"
  by (simp add: p_index_of_def)

lemma set_expand_step:
  "set (expand_step variables reset_minterms m acc) =
     set acc \<union>
     (if CHR ''P'' \<in> set variables \<and> m AND p_bit_of variables \<noteq> 0
      then (\<lambda>r. (m AND NOT (p_bit_of variables)) OR shift_reset variables r) ` set reset_minterms
      else {m})"
  by (auto simp: expand_step_def Let_def p_index_of_nonneg_iff p_bit_of_def set_fold_set_add)

lemma set_expand_minterms_aux:
  "set (fold (expand_step variables reset_minterms) base_minterms acc) =
     set acc \<union>
     (if CHR ''P'' \<in> set variables
      then {m \<in> set base_minterms. m AND p_bit_of variables = 0} \<union>
           {(m AND NOT (p_bit_of variables)) OR shift_reset variables r | m r.
              m \<in> set base_minterms \<and> m AND p_bit_of variables \<noteq> 0 \<and> r \<in> set reset_minterms}
      else set base_minterms)"
proof (induction base_minterms arbitrary: acc)
  case Nil
  show ?case by simp
next
  case (Cons m ms)
  show ?case
    unfolding fold_simps Cons.IH set_expand_step
    by (cases "CHR ''P'' \<in> set variables"; cases "m AND p_bit_of variables = 0") auto
qed

lemma set_expand_minterms:
  "set (expand_minterms variables reset_minterms base_minterms) =
     (if CHR ''P'' \<in> set variables
      then {m \<in> set base_minterms. m AND p_bit_of variables = 0} \<union>
           {(m AND NOT (p_bit_of variables)) OR shift_reset variables r | m r.
              m \<in> set base_minterms \<and> m AND p_bit_of variables \<noteq> 0 \<and> r \<in> set reset_minterms}
      else set base_minterms)"
  by (simp add: expand_minterms_def set_expand_minterms_aux)

lemma finite_extract_variables [simp]: "finite (extract_variables e)"
  by (simp add: extract_variables_def split: option.splits)

lemma finite_universe [simp]: "finite (universe b r)"
  by (simp add: universe_def)

text \<open>An expression in which \<^verbatim>\<open>parse_expr_to_minterms\<close> finds no term: it is blank or
  the placeholder \<^verbatim>\<open>-\<close>, or the pattern matches nowhere.\<close>

definition no_terms :: "string \<Rightarrow> bool" where
  "no_terms r = (strip r \<in> {[], ''-''} \<or> parse_terms r = [])"

lemma parse_no_terms: "no_terms r \<Longrightarrow> parse_expr_to_minterms (Some r) variables = []"
  by (auto simp: parse_expr_to_minterms_def no_terms_def Let_def)

subsection \<open>The pattern on well-formed groups\<close>

lemma is_upper_not_space: "is_upper c \<Longrightarrow> \<not> is_space c"
  by (auto simp: is_upper_def is_space_def Let_def)

lemma is_upper_isalpha: "is_upper c \<Longrightarrow> isalpha c"
  by (auto simp: is_upper_def isalpha_def Let_def)

lemma bracket_classes [simp]:
  "\<not> is_space CHR ''[''" "\<not> is_upper CHR ''[''" "\<not> is_space CHR '']''" "\<not> is_upper CHR '']''"
  by (simp_all add: is_upper_def is_space_def)

lemma match_bracket_group:
  assumes ws1: "\<forall>c \<in> set ws1. is_space c" and ne: "letters \<noteq> []"
    and up: "\<forall>c \<in> set letters. is_upper c" and ws2: "\<forall>c \<in> set ws2. is_space c"
  shows "match_bracket (CHR ''['' # ws1 @ letters @ ws2 @ CHR '']'' # rest) = Some (letters, rest)"
proof -
  define tl1 where "tl1 = ws2 @ CHR '']'' # rest"
  obtain l ls where letters: "letters = l # ls" using ne by (cases letters) auto
  have l: "\<not> is_space l" using up letters by (simp add: is_upper_not_space)
  have r1: "dropWhile is_space (ws1 @ letters @ tl1) = letters @ tl1"
    using ws1 l by (simp add: dropWhile_append2 letters)
  have "takeWhile is_upper tl1 = []"
    unfolding tl1_def using ws2 by (cases ws2) (auto dest: is_upper_not_space)
  then have g: "takeWhile is_upper (letters @ tl1) = letters"
    using up by (simp add: takeWhile_append2)
  have "dropWhile is_upper tl1 = tl1"
    unfolding tl1_def using ws2 by (cases ws2) (auto dest: is_upper_not_space)
  then have d: "dropWhile is_upper (letters @ tl1) = tl1"
    using up by (simp add: dropWhile_append2)
  have r2: "dropWhile is_space tl1 = CHR '']'' # rest"
    unfolding tl1_def using ws2 by (simp add: dropWhile_append2)
  have "match_bracket (CHR ''['' # ws1 @ letters @ tl1) = Some (letters, rest)"
    using ne by (simp add: match_bracket_def r1 g d r2 Let_def)
  then show ?thesis by (simp add: tl1_def)
qed

lemma match_bracket_before_bracket:
  assumes "s \<noteq> []"
  shows "match_bracket (s @ CHR ''['' # t) =
           map_option (\<lambda>(g, r). (g, r @ CHR ''['' # t)) (match_bracket s)"
proof -
  obtain c s' where s: "s = c # s'" using assms by (cases s) auto
  define Y where "Y = dropWhile is_space (dropWhile is_upper (dropWhile is_space s'))"
  have a: "dropWhile is_space (s' @ CHR ''['' # t) = dropWhile is_space s' @ CHR ''['' # t"
    by (simp add: dropWhile_append3)
  have b: "takeWhile is_upper (dropWhile is_space s' @ CHR ''['' # t) = takeWhile is_upper (dropWhile is_space s')"
    by (simp add: takeWhile_tail)
  have c: "dropWhile is_space (dropWhile is_upper (dropWhile is_space s' @ CHR ''['' # t)) = Y @ CHR ''['' # t"
    by (simp add: dropWhile_append3 Y_def)
  show ?thesis
    by (cases Y) (auto simp: match_bracket_def s a b c Let_def Y_def [symmetric])
qed

lemma findall_before_bracket:
  "findall (pre @ CHR ''['' # t) = findall pre @ findall (CHR ''['' # t)"
proof (induction pre rule: findall.induct)
  case 1
  show ?case by simp
next
  case (2 c cs)
  show ?case
  proof (cases "match_bracket (c # cs)")
    case None
    then have "match_bracket ((c # cs) @ CHR ''['' # t) = None"
      by (simp add: match_bracket_before_bracket del: append_Cons)
    with None 2 show ?thesis by simp
  next
    case (Some gr)
    obtain g r where gr: "gr = (g, r)" by (cases gr)
    with Some have "match_bracket ((c # cs) @ CHR ''['' # t) = Some (g, r @ CHR ''['' # t)"
      by (simp add: match_bracket_before_bracket del: append_Cons)
    with Some gr 2 show ?thesis by simp
  qed
qed

lemma findall_group:
  assumes "\<forall>c \<in> set ws1. is_space c" "letters \<noteq> []" "\<forall>c \<in> set letters. is_upper c"
    "\<forall>c \<in> set ws2. is_space c"
  shows "findall (pre @ ''['' @ ws1 @ letters @ ws2 @ '']'' @ rest) = findall pre @ letters # findall rest"
proof -
  have "findall (CHR ''['' # ws1 @ letters @ ws2 @ CHR '']'' # rest) = letters # findall rest"
    using match_bracket_group [OF assms, of rest] by simp
  then show ?thesis
    using findall_before_bracket [of pre "ws1 @ letters @ ws2 @ CHR '']'' # rest"] by simp
qed

subsection \<open>The first level\<close>

lemma update_fresh: "k \<notin> fst ` set al \<Longrightarrow> AList.update k v al = al @ [(k, v)]"
  by (induction al) auto

lemma update_subset: "set (AList.update k v al) \<subseteq> insert (k, v) (set al)"
  by (induction al) auto

lemma initial_level_aux:
  "distinct minterms \<Longrightarrow> set minterms \<inter> fst ` set d = {} \<Longrightarrow>
     fold (\<lambda>minterm d. AList.update minterm minterm d) minterms d = d @ map (\<lambda>m. (m, m)) minterms"
proof (induction minterms arbitrary: d)
  case Nil
  show ?case by simp
next
  case (Cons m ms)
  from Cons.prems have fresh: "m \<notin> fst ` set d" by auto
  have "set ms \<inter> fst ` set (d @ [(m, m)]) = {}" using Cons.prems by auto
  with Cons.IH [of "d @ [(m, m)]"] Cons.prems show ?case
    by (simp add: update_fresh [OF fresh])
qed

lemma initial_level_distinct:
  "distinct minterms \<Longrightarrow> initial_level minterms = map (\<lambda>m. (m, m)) minterms"
  using initial_level_aux [of minterms "[]"] by (simp add: initial_level_def)

lemma set_initial_level_aux:
  "set (fold (\<lambda>minterm d. AList.update minterm minterm d) minterms d) \<subseteq> set d \<union> (\<lambda>m. (m, m)) ` set minterms \<and>
   fst ` set (fold (\<lambda>minterm d. AList.update minterm minterm d) minterms d) = fst ` set d \<union> set minterms"
proof (induction minterms arbitrary: d)
  case Nil
  show ?case by simp
next
  case (Cons m ms)
  have "set (AList.update m m d) \<subseteq> insert (m, m) (set d)" by (rule update_subset)
  with Cons.IH [of "AList.update m m d"] show ?case
    by (auto simp: dom_update)
qed

text \<open>Every entry of the first level has its term as its mask, whatever the order and
  the repetitions of the list.\<close>
lemma set_initial_level: "set (initial_level minterms) = (\<lambda>m. (m, m)) ` set minterms"
proof
  show "set (initial_level minterms) \<subseteq> (\<lambda>m. (m, m)) ` set minterms"
    using set_initial_level_aux [of minterms "[]"] by (simp add: initial_level_def)
  show "(\<lambda>m. (m, m)) ` set minterms \<subseteq> set (initial_level minterms)"
  proof
    fix p assume "p \<in> (\<lambda>m. (m, m)) ` set minterms"
    then obtain m where m: "m \<in> set minterms" "p = (m, m)" by auto
    then have "m \<in> fst ` set (initial_level minterms)"
      using set_initial_level_aux [of minterms "[]"] by (simp add: initial_level_def)
    then obtain v where v: "(m, v) \<in> set (initial_level minterms)" by auto
    then have "(m, v) \<in> (\<lambda>m. (m, m)) ` set minterms"
      using set_initial_level_aux [of minterms "[]"] by (auto simp: initial_level_def)
    with v m show "p \<in> set (initial_level minterms)" by auto
  qed
qed

subsection \<open>The minterms an implicant covers\<close>

lemma set_product01: "set (product01 n) = {a. length a = n \<and> set a \<subseteq> {0, 1}}"
proof (induction n)
  case 0
  show ?case by auto
next
  case (Suc n)
  show ?case
  proof (intro set_eqI iffI)
    fix a assume "a \<in> set (product01 (Suc n))"
    then show "a \<in> {a. length a = Suc n \<and> set a \<subseteq> {0, 1}}"
      using Suc.IH by auto
  next
    fix a :: "int list" assume "a \<in> {a. length a = Suc n \<and> set a \<subseteq> {0, 1}}"
    then obtain b a' where "a = b # a'" "length a' = n" "set a' \<subseteq> {0, 1}" "b = 0 \<or> b = 1"
      by (cases a) auto
    then show "a \<in> set (product01 (Suc n))"
      using Suc.IH by auto
  qed
qed

lemma bit_push_bit_1_int [simp]: "bit (push_bit p (1 :: int)) i \<longleftrightarrow> i = p"
  by (auto simp: bit_simps)

lemma and_pow2_eq_0_iff: "(x AND 2 ^ p = 0) \<longleftrightarrow> \<not> bit (x :: int) p"
  using bit_iff_and_push_bit_not_eq_0 [of x p] by simp

lemma bit_fold_or:
  "bit (fold (\<lambda>(pos, bit_value) minterm. if bit_value \<noteq> (0 :: int) then minterm OR push_bit pos 1 else minterm) zs (t :: int)) i
     \<longleftrightarrow> bit t i \<or> (\<exists>bv. (i, bv) \<in> set zs \<and> bv \<noteq> 0)"
proof (induction zs arbitrary: t)
  case Nil
  show ?case by simp
next
  case (Cons z zs)
  obtain pos bv where z: "z = (pos, bv)" by (cases z)
  show ?case
    unfolding fold_simps Cons.IH by (auto simp: z bit_simps)
qed

lemma set_dont_care_bits: "set (dont_care_bits msk n) = {p. p < n \<and> \<not> bit msk p}"
proof -
  have "\<exists>i \<in> {0..<n} \<inter> {i. \<not> bit msk (n - Suc i)}. p = n - Suc i" if "p < n" "\<not> bit msk p" for p
    using that by (intro bexI [of _ "n - Suc p"]) auto
  then show ?thesis
    by (auto simp: dont_care_bits_def and_pow2_eq_0_iff)
qed

lemma covered_iff:
  "x \<in> get_covered_minterms (t, msk) n \<longleftrightarrow>
     (\<forall>i. bit t i \<longrightarrow> bit x i) \<and> (\<forall>i. bit x i \<and> \<not> bit t i \<longrightarrow> i < n \<and> \<not> bit msk i)"
  (is "?L \<longleftrightarrow> ?R")
proof
  define dcb where "dcb = dont_care_bits msk n"
  assume ?L
  then obtain a where a: "length a = length dcb" and x: "x = set_dont_cares t dcb a"
    by (auto simp: Let_def dcb_def get_covered_minterms_def set_product01)
  have bx: "bit x i \<longleftrightarrow> bit t i \<or> (\<exists>bv. (i, bv) \<in> set (zip dcb a) \<and> bv \<noteq> 0)" for i
    by (simp add: x set_dont_cares_def bit_fold_or)
  show ?R
  proof (intro conjI allI impI)
    fix i assume "bit t i" then show "bit x i" by (simp add: bx)
  next
    fix i assume "bit x i \<and> \<not> bit t i"
    then obtain bv where "(i, bv) \<in> set (zip dcb a)" by (auto simp: bx)
    then have "i \<in> set dcb" by (rule set_zip_leftD)
    then show "i < n" by (simp add: dcb_def set_dont_care_bits)
  next
    fix i assume "bit x i \<and> \<not> bit t i"
    then obtain bv where "(i, bv) \<in> set (zip dcb a)" by (auto simp: bx)
    then have "i \<in> set dcb" by (rule set_zip_leftD)
    then show "\<not> bit msk i" by (simp add: dcb_def set_dont_care_bits)
  qed
next
  define dcb where "dcb = dont_care_bits msk n"
  define a :: "int list" where "a = map (\<lambda>p. if bit x p then 1 else 0) dcb"
  assume R: ?R
  have a: "length a = length dcb" "set a \<subseteq> {0, 1}" by (auto simp: a_def)
  have zip: "(i, bv) \<in> set (zip dcb a) \<longleftrightarrow> i \<in> set dcb \<and> bv = (if bit x i then 1 else 0)" for i bv
    by (auto simp: a_def zip_map2 zip_same_conv_map)
  have "x = set_dont_cares t dcb a"
  proof (rule bit_eqI)
    fix i
    have "bit (set_dont_cares t dcb a) i \<longleftrightarrow> bit t i \<or> (i \<in> set dcb \<and> bit x i)"
      by (simp add: set_dont_cares_def bit_fold_or zip)
    also have "\<dots> \<longleftrightarrow> bit x i"
      using R by (auto simp: dcb_def set_dont_care_bits)
    finally show "bit x i \<longleftrightarrow> bit (set_dont_cares t dcb a) i" by simp
  qed
  with a show ?L
    by (auto simp: Let_def dcb_def get_covered_minterms_def set_product01)
qed

lemma int_range_iff_bits: "0 \<le> x \<and> x < 2 ^ n \<longleftrightarrow> (\<forall>i. bit (x :: int) i \<longrightarrow> i < n)"
proof -
  have "0 \<le> x \<and> x < 2 ^ n \<longleftrightarrow> take_bit n x = x"
    by (simp add: take_bit_int_eq_self_iff)
  also have "\<dots> \<longleftrightarrow> (\<forall>i. bit x i \<longrightarrow> i < n)"
    by (auto simp: bit_eq_iff bit_take_bit_iff)
  finally show ?thesis .
qed

lemma and_eq_iff_bits: "x AND m = m \<longleftrightarrow> (\<forall>i. bit (m :: int) i \<longrightarrow> bit x i)"
  by (auto simp: bit_eq_iff bit_simps)

text \<open>An implicant whose mask is its term covers the assignments that extend the term.\<close>
lemma covered_self_mask:
  assumes "0 \<le> m" "m < 2 ^ n"
  shows "get_covered_minterms (m, m) n = {x. 0 \<le> x \<and> x < 2 ^ n \<and> x AND m = m}"
proof -
  have m: "\<And>i. bit m i \<Longrightarrow> i < n" using assms int_range_iff_bits [of m n] by simp
  show ?thesis
    unfolding set_eq_iff mem_Collect_eq covered_iff and_eq_iff_bits
    using m int_range_iff_bits [of _ n] by (metis (full_types))
qed

subsection \<open>The entries of the next level\<close>

lemma fold_combine_entries:
  "(t, m) \<in> set (fst (fold combine_step ps st)) \<Longrightarrow>
     (t, m) \<in> set (fst st) \<or>
     (\<exists>t1 m1 t2 m2. ((t1, m1), (t2, m2)) \<in> set ps \<and> adjacent_cells t1 t2 \<and>
        t = t1 AND t2 \<and> m = m1 AND m2 AND NOT (t1 XOR t2))"
proof (induction ps arbitrary: st)
  case Nil
  then show ?case by simp
next
  case (Cons p ps)
  obtain t1 m1 t2 m2 where p: "p = ((t1, m1), (t2, m2))" by (metis surj_pair)
  obtain nl u where st: "st = (nl, u)" by (cases st)
  from Cons.prems have "(t, m) \<in> set (fst (fold combine_step ps (combine_step p st)))" by simp
  from Cons.IH [OF this] show ?case
  proof
    assume a: "(t, m) \<in> set (fst (combine_step p st))"
    show ?thesis
    proof (cases "adjacent_cells t1 t2")
      case False
      with a show ?thesis by (simp add: p st combine_step_def)
    next
      case True
      with a have "(t, m) \<in> insert (t1 AND t2, m1 AND m2 AND NOT (t1 XOR t2)) (set nl)"
        using update_subset [of "t1 AND t2" "m1 AND m2 AND NOT (t1 XOR t2)" nl]
        by (auto simp: p st combine_step_def Let_def)
      then show ?thesis
      proof
        assume "(t, m) = (t1 AND t2, m1 AND m2 AND NOT (t1 XOR t2))"
        with True have "((t1, m1), (t2, m2)) \<in> set (p # ps) \<and> adjacent_cells t1 t2 \<and>
          t = t1 AND t2 \<and> m = m1 AND m2 AND NOT (t1 XOR t2)" by (simp add: p)
        then show ?thesis by blast
      next
        assume "(t, m) \<in> set nl"
        then show ?thesis by (simp add: st)
      qed
    qed
  next
    assume "\<exists>t1 m1 t2 m2. ((t1, m1), (t2, m2)) \<in> set ps \<and> adjacent_cells t1 t2 \<and>
        t = t1 AND t2 \<and> m = m1 AND m2 AND NOT (t1 XOR t2)"
    then show ?thesis by auto
  qed
qed

lemma combine_level_entries:
  assumes "(t, m) \<in> set (fst (combine_level items))"
  shows "\<exists>t1 m1 t2 m2. (t1, m1) \<in> set items \<and> (t2, m2) \<in> set items \<and> adjacent_cells t1 t2 \<and>
        t = t1 AND t2 \<and> m = m1 AND m2 AND NOT (t1 XOR t2)"
proof -
  from fold_combine_entries [OF assms [unfolded combine_level_def]]
  obtain t1 m1 t2 m2 where "((t1, m1), (t2, m2)) \<in> set (pairs items)" "adjacent_cells t1 t2"
    "t = t1 AND t2" "m = m1 AND m2 AND NOT (t1 XOR t2)" by auto
  moreover from this have "(t1, m1) \<in> set items" "(t2, m2) \<in> set items"
    using set_pairs_subset [of items] by auto
  ultimately show ?thesis by blast
qed

lemma adjacent_cells_nonneg_iff:
  assumes "0 \<le> t1" "0 \<le> t2"
  shows "adjacent_cells t1 t2 \<longleftrightarrow> (\<exists>k. \<forall>i. (bit t1 i \<noteq> bit t2 i) = (i = k))"
proof -
  have "\<bar>t1 XOR t2\<bar> = t1 XOR t2" using assms by simp
  then have "adjacent_cells t1 t2 \<longleftrightarrow> (\<exists>k. t1 XOR t2 = 2 ^ k)"
    by (simp add: adjacent_cells_iff)
  also have "\<dots> \<longleftrightarrow> (\<exists>k. \<forall>i. (bit t1 i \<noteq> bit t2 i) = (i = k))"
  proof -
    have "t1 XOR t2 = 2 ^ k \<longleftrightarrow> (\<forall>i. (bit t1 i \<noteq> bit t2 i) = (i = k))" for k
    proof
      assume "t1 XOR t2 = 2 ^ k"
      then have "bit (t1 XOR t2) i = bit ((2 :: int) ^ k) i" for i by simp
      then show "\<forall>i. (bit t1 i \<noteq> bit t2 i) = (i = k)"
        by (simp add: bit_xor_iff bit_exp_iff)
    next
      assume "\<forall>i. (bit t1 i \<noteq> bit t2 i) = (i = k)"
      then show "t1 XOR t2 = 2 ^ k"
        by (intro bit_eqI) (simp add: bit_xor_iff bit_exp_iff)
    qed
    then show ?thesis by simp
  qed
  finally show ?thesis .
qed

subsection \<open>The tables of the cover\<close>

lemma fold_update_keys:
  "fst ` set (fold (\<lambda>k d. AList.update k (f k) d) ks d) = fst ` set d \<union> set ks"
  by (induction ks arbitrary: d) (auto simp: dom_update)

lemma fold_update_distinct:
  "distinct (map fst d) \<Longrightarrow> distinct (map fst (fold (\<lambda>k d. AList.update k (f k) d) ks d))"
  by (induction ks arbitrary: d) (auto simp: distinct_update)

lemma fold_update_entries:
  "set (fold (\<lambda>k d. AList.update k (f k) d) ks d) \<subseteq> set d \<union> (\<lambda>k. (k, f k)) ` set ks"
proof (induction ks arbitrary: d)
  case Nil
  show ?case by simp
next
  case (Cons k ks)
  have "set (AList.update k (f k) d) \<subseteq> insert (k, f k) (set d)" by (rule update_subset)
  with Cons.IH [of "AList.update k (f k) d"] show ?case by auto
qed

lemma coverage_keys: "fst ` set (coverage_table pis ms n) = set pis"
  by (simp add: coverage_table_def fold_update_keys)

lemma coverage_distinct: "distinct (map fst (coverage_table pis ms n))"
  by (simp add: coverage_table_def fold_update_distinct)

lemma coverage_entries:
  "(pi, cov) \<in> set (coverage_table pis ms n) \<Longrightarrow>
     pi \<in> set pis \<and> cov = get_covered_minterms pi n \<inter> set ms"
  using fold_update_entries [of "\<lambda>pi. get_covered_minterms pi n \<inter> set ms" pis "[]"]
  by (auto simp: coverage_table_def)

lemma coverage_lookup_defined:
  assumes "pi \<in> set pis"
  shows "map_of (coverage_table pis ms n) pi = Some (get_covered_minterms pi n \<inter> set ms)"
proof -
  from assms have "pi \<in> fst ` set (coverage_table pis ms n)"
    by (simp add: coverage_keys)
  then obtain cov where "(pi, cov) \<in> set (coverage_table pis ms n)"
    by auto
  moreover from this have "cov = get_covered_minterms pi n \<inter> set ms"
    by (simp add: coverage_entries)
  ultimately show ?thesis
    using coverage_distinct [of pis ms n] by simp
qed

lemma dict_get_coverage:
  "pi \<in> set pis \<Longrightarrow> dict_get (coverage_table pis ms n) pi = get_covered_minterms pi n \<inter> set ms"
  by (simp add: dict_get_def coverage_lookup_defined)

lemma set_covering:
  "set (covering (coverage_table pis ms n) m) =
     {pi \<in> set pis. m \<in> get_covered_minterms pi n \<and> m \<in> set ms}"
proof -
  have "pi \<in> set (covering (coverage_table pis ms n) m) \<longleftrightarrow>
      pi \<in> set pis \<and> m \<in> get_covered_minterms pi n \<and> m \<in> set ms" for pi
  proof
    assume "pi \<in> set (covering (coverage_table pis ms n) m)"
    then obtain cov where "(pi, cov) \<in> set (coverage_table pis ms n)" "m \<in> cov"
      by (auto simp: covering_def)
    then show "pi \<in> set pis \<and> m \<in> get_covered_minterms pi n \<and> m \<in> set ms"
      by (auto dest: coverage_entries)
  next
    assume a: "pi \<in> set pis \<and> m \<in> get_covered_minterms pi n \<and> m \<in> set ms"
    then have "(pi, get_covered_minterms pi n \<inter> set ms) \<in> set (coverage_table pis ms n)"
      using coverage_lookup_defined [of pi pis ms n] by (auto dest: map_of_SomeD)
    with a show "pi \<in> set (covering (coverage_table pis ms n) m)"
      by (force simp: covering_def)
  qed
  then show ?thesis by blast
qed

lemma distinct_covering: "distinct (covering (coverage_table pis ms n) m)"
  unfolding covering_def using coverage_distinct [of pis ms n]
  by (simp add: distinct_map_filter)

text \<open>The loop of the essential implicants: an implicant is essential iff it is the only
  one to cover some target minterm, and the covered set is the union of the coverages.\<close>

lemma essential_step_set:
  "set (fst (essential_step cov m st)) =
     set (fst st) \<union> {epi. covering cov m = [epi]}"
  by (cases st) (auto simp: essential_step_def split: list.splits)

lemma essential_step_covered:
  "snd st = \<Union> (dict_get cov ` set (fst st)) \<Longrightarrow>
     snd (essential_step cov m st) = \<Union> (dict_get cov ` set (fst (essential_step cov m st)))"
  by (cases st) (auto simp: essential_step_def split: list.splits)

lemma essentials_fold:
  "set (fst (fold (essential_step cov) ms st)) =
     set (fst st) \<union> {epi. \<exists>m \<in> set ms. covering cov m = [epi]}"
  by (induction ms arbitrary: st) (auto simp: essential_step_set)

lemma essentials_fold_covered:
  "snd st = \<Union> (dict_get cov ` set (fst st)) \<Longrightarrow>
     snd (fold (essential_step cov) ms st) = \<Union> (dict_get cov ` set (fst (fold (essential_step cov) ms st)))"
  by (induction ms arbitrary: st) (simp_all add: essential_step_covered)

lemma set_essentials:
  "set (fst (essentials cov ms)) = {epi. \<exists>m \<in> set ms. covering cov m = [epi]}"
  by (simp add: essentials_def essentials_fold)

lemma covered_essentials:
  "snd (essentials cov ms) = \<Union> (dict_get cov ` set (fst (essentials cov ms)))"
  unfolding essentials_def by (rule essentials_fold_covered) simp

lemma essentials_subset:
  "set (fst (essentials (coverage_table pis ms n) ms')) \<subseteq> set pis"
proof
  fix epi assume "epi \<in> set (fst (essentials (coverage_table pis ms n) ms'))"
  then obtain m where "covering (coverage_table pis ms n) m = [epi]"
    by (auto simp: set_essentials)
  then have "epi \<in> set (covering (coverage_table pis ms n) m)" by simp
  then show "epi \<in> set pis" by (simp add: set_covering)
qed

text \<open>The index table.\<close>

lemma fold_index_entries:
  "set (fold (\<lambda>(i, pi) d. AList.update pi i d) ips d) \<subseteq> set d \<union> (\<lambda>(i, pi). (pi, i)) ` set ips"
proof (induction ips arbitrary: d)
  case Nil
  show ?case by simp
next
  case (Cons ip ips)
  obtain i pi where ip: "ip = (i, pi)" by (cases ip)
  have "set (AList.update pi i d) \<subseteq> insert (pi, i) (set d)" by (rule update_subset)
  with Cons.IH [of "AList.update pi i d"] show ?case by (auto simp: ip)
qed

lemma fold_index_keys:
  "fst ` set (fold (\<lambda>(i, pi) d. AList.update pi i d) ips d) = fst ` set d \<union> snd ` set ips"
proof (induction ips arbitrary: d)
  case Nil
  show ?case by simp
next
  case (Cons ip ips)
  obtain i pi where ip: "ip = (i, pi)" by (cases ip)
  show ?case unfolding fold_simps Cons.IH by (auto simp: ip dom_update)
qed

lemma index_table_keys: "fst ` set (index_table pis) = set pis"
proof -
  have "snd ` set (enumerate 0 pis) = set pis"
    by (metis map_snd_enumerate set_map)
  then show ?thesis
    by (simp add: index_table_def fold_index_keys)
qed

lemma index_table_entries:
  assumes "(pi, i) \<in> set (index_table pis)"
  shows "i < length pis \<and> pis ! i = pi"
proof -
  from assms have "(i, pi) \<in> set (enumerate 0 pis)"
    using fold_index_entries [of "enumerate 0 pis" "[]"] by (auto simp: index_table_def)
  then show ?thesis by (simp add: in_set_enumerate_eq)
qed

lemma index_of_lookup_defined:
  assumes "pi \<in> set pis"
  shows "\<exists>i. map_of (index_table pis) pi = Some i \<and> i < length pis \<and> pis ! i = pi"
proof -
  from assms have "pi \<in> fst ` set (index_table pis)" by (simp add: index_table_keys)
  then obtain i where "map_of (index_table pis) pi = Some i"
    by (metis domD dom_map_of_conv_image_fst)
  moreover from this have "(pi, i) \<in> set (index_table pis)" by (rule map_of_SomeD)
  ultimately show ?thesis by (auto dest: index_table_entries)
qed

lemma dict_get_index:
  "pi \<in> set pis \<Longrightarrow> dict_get (index_table pis) pi < length pis \<and> pis ! dict_get (index_table pis) pi = pi"
  using index_of_lookup_defined [of pi pis] by (auto simp: dict_get_def)

text \<open>The clauses.\<close>

lemma set_fold_set_add_acc:
  "set (fold (\<lambda>x acc. set_add acc (f x)) xs acc) = set acc \<union> f ` set xs"
  by (rule set_fold_set_add)

lemma clause_step_cases:
  "clause_step coverage index_of essential m clauses = clauses \<or>
   (\<exists>c. clause_step coverage index_of essential m clauses = clauses @ [c] \<and> c \<noteq> [] \<and>
      set c \<subseteq> dict_get index_of ` set (covering coverage m))"
  by (auto simp: clause_step_def Let_def set_fold_set_add)

lemma fold_clause_step:
  assumes "c \<in> set (fold (clause_step coverage index_of essential) remaining clauses)"
  shows "c \<in> set clauses \<or>
    (c \<noteq> [] \<and> (\<exists>m \<in> set remaining. set c \<subseteq> dict_get index_of ` set (covering coverage m)))"
  using assms
proof (induction remaining arbitrary: clauses)
  case Nil
  then show ?case by simp
next
  case (Cons m ms)
  from Cons.prems have "c \<in> set (fold (clause_step coverage index_of essential) ms
      (clause_step coverage index_of essential m clauses))" by simp
  from Cons.IH [OF this] clause_step_cases [of coverage index_of essential m clauses]
  show ?case by auto
qed

lemma build_clauses_elem:
  assumes "c \<in> set (build_clauses coverage index_of essential remaining)"
  shows "c \<noteq> [] \<and> (\<exists>m \<in> set remaining. set c \<subseteq> dict_get index_of ` set (covering coverage m))"
  using fold_clause_step [of c coverage index_of essential remaining "[]"] assms
  by (simp add: build_clauses_def)

lemma build_clauses_in_range:
  assumes "c \<in> set (build_clauses (coverage_table pis ms n) (index_table pis) essential remaining)"
    and "i \<in> set c"
  shows "i < length pis"
proof -
  from build_clauses_elem [OF assms(1)] assms(2)
  obtain m pi where "pi \<in> set (covering (coverage_table pis ms n) m)" "i = dict_get (index_table pis) pi"
    by auto
  then show ?thesis by (simp add: set_covering dict_get_index)
qed

text \<open>Petrick's method.\<close>

lemma set_multiply_clause_aux:
  "set (fold (\<lambda>p new_products. fold (\<lambda>idx np. set_add np (insert idx p)) clause new_products) products acc) =
     set acc \<union> {insert idx p | p idx. p \<in> set products \<and> idx \<in> set clause}"
proof (induction products arbitrary: acc)
  case Nil
  show ?case by simp
next
  case (Cons q qs)
  have "set (fold (\<lambda>idx np. set_add np (insert idx q)) clause acc) = set acc \<union> (\<lambda>idx. insert idx q) ` set clause"
    by (rule set_fold_set_add)
  then show ?case unfolding fold_simps Cons.IH by auto
qed

lemma set_multiply_clause:
  "set (multiply_clause products clause) = {insert idx p | p idx. p \<in> set products \<and> idx \<in> set clause}"
  by (simp add: multiply_clause_def set_multiply_clause_aux)

lemma multiply_clause_nonempty:
  "products \<noteq> [] \<Longrightarrow> clause \<noteq> [] \<Longrightarrow> multiply_clause products clause \<noteq> []"
proof -
  assume "products \<noteq> []" "clause \<noteq> []"
  then obtain p idx where "p \<in> set products" "idx \<in> set clause"
    by (meson last_in_set)
  then have "insert idx p \<in> set (multiply_clause products clause)"
    unfolding set_multiply_clause by blast
  then show ?thesis by auto
qed

lemma keep_minimal_set:
  "set (keep_minimal p minimal) \<subseteq> insert p (set minimal)" "set minimal \<subseteq> set (keep_minimal p minimal)"
  by (auto simp: keep_minimal_def)

lemma reduce_fold_subset: "set (fold keep_minimal xs acc) \<subseteq> set acc \<union> set xs"
proof (induction xs arbitrary: acc)
  case Nil
  show ?case by simp
next
  case (Cons x xs)
  from Cons.IH [of "keep_minimal x acc"] keep_minimal_set(1) [of x acc]
  show ?case by auto
qed

lemma reduce_fold_mono: "set acc \<subseteq> set (fold keep_minimal xs acc)"
proof (induction xs arbitrary: acc)
  case Nil
  show ?case by simp
next
  case (Cons x xs)
  from Cons.IH [of "keep_minimal x acc"] keep_minimal_set(2) [of acc x]
  show ?case by auto
qed

lemma reduce_products_subset: "set (reduce_products lc prods) \<subseteq> set prods"
  using reduce_fold_subset [of "sort_key (product_cost lc) prods" "[]"]
  by (simp add: reduce_products_def)

lemma reduce_products_nonempty:
  assumes "prods \<noteq> []"
  shows "reduce_products lc prods \<noteq> []"
proof -
  from assms have "sort_key (product_cost lc) prods \<noteq> []"
    by (metis length_0_conv length_sort)
  then obtain x xs where xs: "sort_key (product_cost lc) prods = x # xs"
    by (cases "sort_key (product_cost lc) prods") auto
  have "set [x] \<subseteq> set (fold keep_minimal xs [x])"
    by (rule reduce_fold_mono)
  then show ?thesis by (auto simp: reduce_products_def xs keep_minimal_def)
qed

lemma petrick_elements:
  "petrick lc clauses products = Some ps \<Longrightarrow> p \<in> set ps \<Longrightarrow>
     p \<subseteq> \<Union> (set ` set clauses) \<union> \<Union> (set products)"
proof (induction clauses arbitrary: products)
  case Nil
  then show ?case by auto
next
  case (Cons c cs)
  define products' where "products' = reduce_products lc (multiply_clause products c)"
  from Cons.prems have "petrick lc cs products' = Some ps"
    by (auto simp: Let_def products'_def split: if_splits)
  from Cons.IH [OF this Cons.prems(2)] have "p \<subseteq> \<Union> (set ` set cs) \<union> \<Union> (set products')" .
  moreover have "\<Union> (set products') \<subseteq> set c \<union> \<Union> (set products)"
    using reduce_products_subset [of lc "multiply_clause products c"]
    by (auto simp: products'_def set_multiply_clause)
  ultimately show ?case by auto
qed

lemma petrick_nonempty:
  "petrick lc clauses products = Some ps \<Longrightarrow> products \<noteq> [] \<Longrightarrow> ps \<noteq> []"
proof (induction clauses arbitrary: products)
  case Nil
  then show ?case by simp
next
  case (Cons c cs)
  then show ?case by (auto simp: Let_def split: if_splits)
qed

text \<open>With clauses that are not empty the early exit of the loop is never taken.\<close>
lemma petrick_Some:
  "products \<noteq> [] \<Longrightarrow> \<forall>c \<in> set clauses. c \<noteq> [] \<Longrightarrow> \<exists>ps. petrick lc clauses products = Some ps"
proof (induction clauses arbitrary: products)
  case Nil
  show ?case by simp
next
  case (Cons c cs)
  then have "reduce_products lc (multiply_clause products c) \<noteq> []"
    by (simp add: reduce_products_nonempty multiply_clause_nonempty)
  with Cons show ?case by (simp add: Let_def)
qed

text \<open>The choice of the product.\<close>

lemma best_products_nonempty:
  assumes "products \<noteq> []"
  shows "filter (\<lambda>p. product_cost lc p = Min (product_cost lc ` set products)) products \<noteq> []"
proof -
  have "Min (product_cost lc ` set products) \<in> product_cost lc ` set products"
    using assms by (intro Min_in) auto
  then show ?thesis by (auto simp: filter_empty_conv)
qed

lemma choose_product_in:
  assumes "products \<noteq> []"
  shows "choose_product lc products \<in> set products"
    and "product_cost lc (choose_product lc products) = Min (product_cost lc ` set products)"
proof -
  let ?best = "filter (\<lambda>p. product_cost lc p = Min (product_cost lc ` set products)) products"
  have "arg_min_list sorted_list_of_set ?best \<in> set ?best"
    using best_products_nonempty [OF assms] by (rule arg_min_list_in)
  then show "choose_product lc products \<in> set products"
    and "product_cost lc (choose_product lc products) = Min (product_cost lc ` set products)"
    by (simp_all add: choose_product_def Let_def)
qed

lemma choose_product_least_cost:
  assumes "p \<in> set products"
  shows "product_cost lc (choose_product lc products) \<le> product_cost lc p"
proof -
  from assms have "products \<noteq> []" by auto
  then have "product_cost lc (choose_product lc products) = Min (product_cost lc ` set products)"
    by (rule choose_product_in)
  with assms show ?thesis by simp
qed

lemma choose_product_least_tuple:
  assumes "p \<in> set products" and "product_cost lc p = product_cost lc (choose_product lc products)"
  shows "sorted_list_of_set (choose_product lc products) \<le> sorted_list_of_set p"
proof -
  let ?best = "filter (\<lambda>p. product_cost lc p = Min (product_cost lc ` set products)) products"
  from assms(1) have ne: "products \<noteq> []" by auto
  with assms have p: "p \<in> set ?best" by (simp add: choose_product_in)
  have "sorted_list_of_set (arg_min_list sorted_list_of_set ?best) = Min (sorted_list_of_set ` set ?best)"
    using best_products_nonempty [OF ne] by (rule f_arg_min_list_f)
  also have "\<dots> \<le> sorted_list_of_set p" using p by (intro Min_le) auto
  finally show ?thesis by (simp add: choose_product_def Let_def)
qed

text \<open>The cover is made of prime implicants of the list it was given.\<close>

lemma cover_subset: "set (essential_prime_implicant_cover pis ms n) \<subseteq> set pis"
proof (cases "pis = [] \<or> ms = []")
  case True
  then show ?thesis by (auto simp: essential_prime_implicant_cover_def)
next
  case False
  define coverage where "coverage = coverage_table pis ms n"
  obtain essential cbe where ess: "essentials coverage ms = (essential, cbe)"
    by (cases "essentials coverage ms")
  define remaining where "remaining = filter (\<lambda>m. m \<notin> cbe) ms"
  define clauses where "clauses = build_clauses coverage (index_table pis) essential remaining"
  have e: "set essential \<subseteq> set pis"
    using essentials_subset [of pis ms n ms] ess by (simp add: coverage_def)
  show ?thesis
  proof (cases "petrick (literal_counts_of pis) clauses [{}]")
    case None
    with False e show ?thesis
      by (auto simp: essential_prime_implicant_cover_def Let_def coverage_def [symmetric] ess
          remaining_def [symmetric] clauses_def [symmetric])
  next
    case (Some products)
    then have ne: "products \<noteq> []" by (rule petrick_nonempty) simp
    then have "choose_product (literal_counts_of pis) products \<in> set products"
      by (rule choose_product_in)
    with Some have "choose_product (literal_counts_of pis) products \<subseteq> \<Union> (set ` set clauses)"
      using petrick_elements by fastforce
    then have "\<forall>i \<in> choose_product (literal_counts_of pis) products. i < length pis"
      using build_clauses_in_range [of _ pis ms n essential remaining]
      by (auto simp: clauses_def coverage_def)
    moreover have "finite (choose_product (literal_counts_of pis) products)"
      using \<open>choose_product (literal_counts_of pis) products \<subseteq> \<Union> (set ` set clauses)\<close>
      by (rule finite_subset) auto
    ultimately have "set (map (\<lambda>i. pis ! i) (sorted_list_of_set (choose_product (literal_counts_of pis) products))) \<subseteq> set pis"
      by auto
    with False e Some show ?thesis
      by (auto simp: essential_prime_implicant_cover_def Let_def coverage_def [symmetric] ess
          remaining_def [symmetric] clauses_def [symmetric])
  qed
qed

text \<open>\<^verbatim>\<open>reduce_products\<close> keeps the products that contain no other product.\<close>

lemma minimal_below:
  assumes "finite A" and "q \<in> A" and "\<forall>p \<in> A. finite p"
  shows "\<exists>q' \<in> A. q' \<subseteq> q \<and> (\<forall>r \<in> A. \<not> r \<subset> q')"
proof -
  from assms(3,2) have "finite q" by blast
  then show ?thesis using assms(2)
  proof (induction q rule: finite_psubset_induct)
    case (psubset q)
    show ?case
    proof (cases "\<exists>r \<in> A. r \<subset> q")
      case False
      with psubset.prems show ?thesis by blast
    next
      case True
      then obtain r where r: "r \<in> A" "r \<subset> q" by blast
      from psubset.IH [OF r(2) r(1)] obtain q' where "q' \<in> A" "q' \<subseteq> r" "\<forall>r \<in> A. \<not> r \<subset> q'"
        by blast
      with r show ?thesis by blast
    qed
  qed
qed

lemma cost_psubset:
  assumes "finite p" and "q \<subset> p"
  shows "product_cost lc q < product_cost lc p"
proof -
  from assms have "card q < card p" by (rule psubset_card_mono)
  then show ?thesis by (simp add: product_cost_def less_prod_def)
qed

lemma fold_keep_minimal_sorted:
  assumes "sorted (map (product_cost lc) zs)" and "\<forall>p \<in> set zs. finite p"
  shows "set (fold keep_minimal zs []) = {p \<in> set zs. \<forall>q \<in> set zs. \<not> q \<subset> p}"
  using assms
proof (induction zs rule: rev_induct)
  case Nil
  show ?case by simp
next
  case (snoc z zs)
  define acc where "acc = fold keep_minimal zs []"
  define Z where "Z = set zs"
  from snoc.prems have sorted: "sorted (map (product_cost lc) zs)"
    and le: "\<forall>y \<in> set zs. product_cost lc y \<le> product_cost lc z"
    and fin: "\<forall>p \<in> set zs. finite p"
    by (auto simp: sorted_append)
  from snoc.IH [OF sorted fin] have acc: "set acc = {p \<in> Z. \<forall>q \<in> Z. \<not> q \<subset> p}"
    by (simp add: acc_def Z_def)
  have finZ: "\<forall>p \<in> Z. finite p" "finite Z" using fin by (simp_all add: Z_def)
  have no_above: "\<not> z \<subset> y" if "y \<in> Z" for y
  proof
    assume "z \<subset> y"
    moreover have "finite y" using finZ that by blast
    ultimately have "product_cost lc z < product_cost lc y" by (intro cost_psubset)
    moreover have "product_cost lc y \<le> product_cost lc z" using le that by (simp add: Z_def)
    ultimately show False by simp
  qed
  have res: "set (fold keep_minimal (zs @ [z]) []) = set (keep_minimal z acc)"
    by (simp add: acc_def)
  have goal: "{p \<in> set (zs @ [z]). \<forall>q \<in> set (zs @ [z]). \<not> q \<subset> p} =
      {p \<in> insert z Z. \<forall>q \<in> insert z Z. \<not> q \<subset> p}"
    by (simp add: Z_def)
  show ?case
    unfolding res goal
  proof (cases "\<exists>q \<in> set acc. q \<subseteq> z")
    case True
    then obtain q where q: "q \<in> set acc" "q \<subseteq> z" by blast
    then have qz: "q \<in> Z" "\<forall>r \<in> Z. \<not> r \<subset> q" by (simp_all add: acc)
    have 1: "set (keep_minimal z acc) = set acc" using True by (simp add: keep_minimal_def)
    have 2: "set acc = {p \<in> insert z Z. \<forall>q \<in> insert z Z. \<not> q \<subset> p}"
    proof (cases "q = z")
      case True
      with qz have "insert z Z = Z" by blast
      then show ?thesis by (simp only: acc)
    next
      case False
      with q have qz': "q \<subset> z" by blast
      show ?thesis
      proof (intro set_eqI iffI)
        fix p assume "p \<in> set acc"
        then have "p \<in> Z" "\<forall>q \<in> Z. \<not> q \<subset> p" by (simp_all add: acc)
        moreover from this have "\<not> z \<subset> p" by (simp add: no_above)
        ultimately show "p \<in> {p \<in> insert z Z. \<forall>q \<in> insert z Z. \<not> q \<subset> p}" by simp
      next
        fix p assume p: "p \<in> {p \<in> insert z Z. \<forall>q \<in> insert z Z. \<not> q \<subset> p}"
        with qz(1) qz' have "p \<noteq> z" by blast
        with p show "p \<in> set acc" by (simp add: acc)
      qed
    qed
    from 1 2 show "set (keep_minimal z acc) = {p \<in> insert z Z. \<forall>q \<in> insert z Z. \<not> q \<subset> p}"
      by simp
  next
    case False
    have nb: "\<not> q \<subset> z" if "q \<in> Z" for q
    proof
      assume "q \<subset> z"
      from minimal_below [OF finZ(2) that finZ(1)]
      obtain q' where "q' \<in> Z" "q' \<subseteq> q" "\<forall>r \<in> Z. \<not> r \<subset> q'" by blast
      with \<open>q \<subset> z\<close> have "q' \<in> set acc" "q' \<subseteq> z" by (auto simp: acc)
      with False show False by blast
    qed
    have 1: "set (keep_minimal z acc) = insert z (set acc)"
      using False by (simp add: keep_minimal_def)
    have 2: "insert z (set acc) = {p \<in> insert z Z. \<forall>q \<in> insert z Z. \<not> q \<subset> p}"
    proof (intro set_eqI iffI)
      fix p assume "p \<in> insert z (set acc)"
      then consider "p = z" | "p \<in> Z" "\<forall>q \<in> Z. \<not> q \<subset> p" by (auto simp: acc)
      then show "p \<in> {p \<in> insert z Z. \<forall>q \<in> insert z Z. \<not> q \<subset> p}"
      proof cases
        case 1
        then show ?thesis using nb by simp
      next
        case 2
        then show ?thesis using no_above by simp
      qed
    next
      fix p assume p: "p \<in> {p \<in> insert z Z. \<forall>q \<in> insert z Z. \<not> q \<subset> p}"
      then show "p \<in> insert z (set acc)" by (simp add: acc)
    qed
    from 1 2 show "set (keep_minimal z acc) = {p \<in> insert z Z. \<forall>q \<in> insert z Z. \<not> q \<subset> p}"
      by simp
  qed
qed

lemma set_reduce_products:
  assumes "\<forall>p \<in> set prods. finite p"
  shows "set (reduce_products lc prods) = {p \<in> set prods. \<forall>q \<in> set prods. \<not> q \<subset> p}"
  using fold_keep_minimal_sorted [of lc "sort_key (product_cost lc) prods"] assms
  by (simp add: reduce_products_def)

text \<open>The literal count of an implicant with a mask that is not negative.\<close>

lemma finite_bits_nat [simp]: "finite {k. bit (n :: nat) k}"
proof (rule finite_subset)
  show "{k. bit n k} \<subseteq> {..n}"
  proof
    fix k assume "k \<in> {k. bit n k}"
    then have "odd (n div 2 ^ k)" by (simp add: bit_iff_odd)
    then have "2 ^ k \<le> n" by (cases "2 ^ k \<le> n") auto
    moreover have "k < 2 ^ k" by (rule less_exp)
    ultimately have "k \<le> n" by (meson le_trans less_imp_le_nat)
    then show "k \<in> {..n}" by simp
  qed
qed simp

lemma popcount_card: "popcount n = card {k. bit n k}"
proof (induction n rule: popcount.induct)
  case (1 n)
  show ?case
  proof (cases "n = 0")
    case True
    then show ?thesis by simp
  next
    case False
    have fin: "finite {k. bit (n div 2) k}" by (rule finite_bits_nat)
    have split: "{k. bit n k} = (if odd n then {0} else {}) \<union> Suc ` {k. bit (n div 2) k}"
    proof (intro set_eqI iffI)
      fix k assume "k \<in> {k. bit n k}"
      then show "k \<in> (if odd n then {0} else {}) \<union> Suc ` {k. bit (n div 2) k}"
        by (cases k) (auto simp: bit_0 bit_Suc)
    next
      fix k assume "k \<in> (if odd n then {0} else {}) \<union> Suc ` {k. bit (n div 2) k}"
      then show "k \<in> {k. bit n k}"
        by (auto simp: bit_0 bit_Suc split: if_splits)
    qed
    have "card {k. bit n k} = (if odd n then 1 else 0) + card (Suc ` {k. bit (n div 2) k})"
      unfolding split using fin by (subst card_Un_disjoint) auto
    also have "card (Suc ` {k. bit (n div 2) k}) = card {k. bit (n div 2) k}"
      by (rule card_image) simp
    also have "(if odd n then 1 else 0) = n mod 2" by (simp add: odd_iff_mod_2_eq_one)
    finally show ?thesis using False 1 by (simp add: popcount_pos)
  qed
qed

lemma bin_count1_card:
  assumes "0 \<le> x"
  shows "bin_count1 x = card {k. bit x k}"
proof -
  have "bit (nat x) k = bit x k" for k
    using assms by (simp add: bit_nat_iff)
  then show ?thesis using assms by (simp add: bin_count1_def popcount_card)
qed

lemma literal_counts_nth:
  assumes "i < length pis" and "0 \<le> snd (pis ! i)"
  shows "literal_counts_of pis ! i = card {k. bit (snd (pis ! i)) k}"
  using assms by (simp add: literal_counts_of_def bin_count1_card split_beta)

text \<open>The choice does not depend on the order in which the products are listed.\<close>

lemma choose_product_unique:
  assumes "products \<noteq> []" and "set products = set products'" and "\<forall>p \<in> set products. finite p"
  shows "choose_product lc products = choose_product lc products'"
proof -
  let ?c = "choose_product lc products" and ?c' = "choose_product lc products'"
  from assms have ne': "products' \<noteq> []" by auto
  have c: "?c \<in> set products" using assms(1) by (rule choose_product_in)
  have c': "?c' \<in> set products" using ne' assms(2) choose_product_in(1) [of products' lc] by simp
  have "product_cost lc ?c \<le> product_cost lc ?c'" using c' by (rule choose_product_least_cost)
  moreover have "product_cost lc ?c' \<le> product_cost lc ?c"
    using c assms(2) choose_product_least_cost [of ?c products' lc] by simp
  ultimately have eq: "product_cost lc ?c' = product_cost lc ?c" by simp
  have "sorted_list_of_set ?c \<le> sorted_list_of_set ?c'"
    using c' eq by (rule choose_product_least_tuple)
  moreover have "sorted_list_of_set ?c' \<le> sorted_list_of_set ?c"
    using c assms(2) eq choose_product_least_tuple [of ?c products' lc] by simp
  ultimately have "sorted_list_of_set ?c = sorted_list_of_set ?c'" by simp
  moreover have "finite ?c" "finite ?c'" using c c' assms(3) by auto
  ultimately show ?thesis by (metis sorted_list_of_set.set_sorted_key_list_of_set)
qed

subsection \<open>The truth table\<close>

lemma minterm_of_snoc: "minterm_of (a @ [b]) = 2 * minterm_of a + b"
proof -
  have "map (\<lambda>i. (a @ [b]) ! i * 2 ^ (length a - i)) [0..<length a] =
        map (\<lambda>i. 2 * (a ! i * 2 ^ (length a - 1 - i))) [0..<length a]"
  proof (rule map_cong [OF refl])
    fix i assume "i \<in> set [0..<length a]"
    then have i: "i < length a" by simp
    then have "length a - i = Suc (length a - 1 - i)" by simp
    with i show "(a @ [b]) ! i * 2 ^ (length a - i) = 2 * (a ! i * 2 ^ (length a - 1 - i))"
      by (simp add: nth_append)
  qed
  then have "(\<Sum>i\<leftarrow>[0..<length a]. (a @ [b]) ! i * 2 ^ (length a - i)) =
      (\<Sum>i\<leftarrow>[0..<length a]. 2 * (a ! i * 2 ^ (length a - 1 - i)))"
    by (simp only:)
  also have "\<dots> = 2 * (\<Sum>i\<leftarrow>[0..<length a]. a ! i * 2 ^ (length a - 1 - i))"
    by (rule sum_list_const_mult)
  finally show ?thesis
    by (simp add: minterm_of_def)
qed

lemma minterm_of_Nil [simp]: "minterm_of [] = 0"
  by (simp add: minterm_of_def)

lemma bit_minterm_of:
  assumes "set a \<subseteq> {0, 1}"
  shows "bit (minterm_of a) k \<longleftrightarrow> k < length a \<and> a ! (length a - 1 - k) = 1"
  using assms
proof (induction a arbitrary: k rule: rev_induct)
  case Nil
  show ?case by simp
next
  case (snoc b a)
  then have b: "b = 0 \<or> b = 1" and IH: "\<And>k. bit (minterm_of a) k \<longleftrightarrow> k < length a \<and> a ! (length a - 1 - k) = 1"
    by auto
  show ?case
  proof (cases k)
    case 0
    with b show ?thesis by (auto simp: minterm_of_snoc bit_0)
  next
    case (Suc k')
    have "(2 * minterm_of a + b) div 2 = minterm_of a" using b by auto
    then have "bit (minterm_of (a @ [b])) k \<longleftrightarrow> bit (minterm_of a) k'"
      by (simp add: Suc minterm_of_snoc bit_Suc)
    also have "\<dots> \<longleftrightarrow> k' < length a \<and> a ! (length a - 1 - k') = 1" by (rule IH)
    also have "\<dots> \<longleftrightarrow> k < length (a @ [b]) \<and> (a @ [b]) ! (length (a @ [b]) - 1 - k) = 1"
      by (auto simp: Suc nth_append)
    finally show ?thesis .
  qed
qed

lemma minterm_of_range:
  assumes "set a \<subseteq> {0, 1}"
  shows "0 \<le> minterm_of a \<and> minterm_of a < 2 ^ length a"
  using int_range_iff_bits [of "minterm_of a" "length a"] bit_minterm_of [OF assms] by simp

text \<open>The assignment that has the bits of \<open>x\<close>.\<close>

definition assignment_of :: "nat \<Rightarrow> int \<Rightarrow> int list" where
  "assignment_of n x = map (\<lambda>i. if bit x (n - 1 - i) then 1 else 0) [0..<n]"

lemma assignment_of_props:
  "length (assignment_of n x) = n" "set (assignment_of n x) \<subseteq> {0, 1}"
  by (auto simp: assignment_of_def)

lemma minterm_of_assignment_of:
  assumes "0 \<le> x" "x < 2 ^ n"
  shows "minterm_of (assignment_of n x) = x"
proof (rule bit_eqI)
  fix k
  have xk: "bit x k \<Longrightarrow> k < n" using assms int_range_iff_bits [of x n] by simp
  have "bit (minterm_of (assignment_of n x)) k \<longleftrightarrow> k < n \<and> assignment_of n x ! (n - 1 - k) = 1"
    using bit_minterm_of [OF assignment_of_props(2), of n x k] by (simp add: assignment_of_props)
  also have "\<dots> \<longleftrightarrow> k < n \<and> bit x k"
    by (auto simp: assignment_of_def split: if_splits)
  also have "\<dots> \<longleftrightarrow> bit x k" using xk by blast
  finally show "bit (minterm_of (assignment_of n x)) k \<longleftrightarrow> bit x k" .
qed

lemma var_assignment_eq_1_iff:
  assumes "distinct variables" "length a = length variables"
  shows "var_assignment variables a c = Some 1 \<longleftrightarrow> (\<exists>i < length variables. variables ! i = c \<and> a ! i = 1)"
proof -
  have d: "distinct (map fst (zip variables a))" "distinct (map fst (rev (zip variables a)))"
    using assms by (simp_all add: rev_map [symmetric])
  then have va: "var_assignment variables a = map_of (zip variables a)"
    unfolding var_assignment_def by (subst map_of_inject_set) auto
  show ?thesis
  proof
    assume "var_assignment variables a c = Some 1"
    then have "(c, 1) \<in> set (zip variables a)" unfolding va by (rule map_of_SomeD)
    then show "\<exists>i < length variables. variables ! i = c \<and> a ! i = 1"
      using assms(2) by (auto simp: in_set_zip)
  next
    assume "\<exists>i < length variables. variables ! i = c \<and> a ! i = 1"
    then obtain i where "i < length variables" "variables ! i = c" "a ! i = 1" by blast
    then show "var_assignment variables a c = Some 1"
      unfolding va using map_of_zip_nth [of variables a i] assms by simp
  qed
qed

text \<open>An assignment, given by the bits of \<open>x\<close>, satisfies one of the terms.\<close>

definition satisfies :: "char set list \<Rightarrow> string \<Rightarrow> int \<Rightarrow> bool" where
  "satisfies terms variables x =
     (\<exists>t \<in> set terms. \<forall>c \<in> t. \<exists>i < length variables.
        variables ! i = c \<and> bit x (length variables - 1 - i))"

lemma term_satisfied_iff:
  assumes "distinct variables" "length a = length variables" "set a \<subseteq> {0, 1}"
  shows "term_satisfied terms (var_assignment variables a) \<longleftrightarrow> satisfies terms variables (minterm_of a)"
proof -
  have "a ! i = 1 \<longleftrightarrow> bit (minterm_of a) (length variables - 1 - i)" if "i < length variables" for i
    using that bit_minterm_of [OF assms(3), of "length variables - 1 - i"] assms(2) by auto
  then show ?thesis
    unfolding term_satisfied_def satisfies_def var_assignment_eq_1_iff [OF assms(1,2)]
    by (intro bex_cong ball_cong refl) auto
qed

lemma set_truth_table:
  assumes "distinct variables"
  shows "set (map minterm_of (filter (\<lambda>a. term_satisfied terms (var_assignment variables a))
                (product01 (length variables)))) =
         {x. 0 \<le> x \<and> x < 2 ^ length variables \<and> satisfies terms variables x}"
    (is "?L = ?R")
proof (intro set_eqI iffI)
  fix x assume "x \<in> ?L"
  then obtain a where a: "length a = length variables" "set a \<subseteq> {0, 1}"
    "term_satisfied terms (var_assignment variables a)" and x: "x = minterm_of a"
    by (auto simp: set_product01)
  with assms show "x \<in> ?R"
    using minterm_of_range [of a] term_satisfied_iff [of variables a terms] by simp
next
  fix x assume "x \<in> ?R"
  then have x: "0 \<le> x" "x < 2 ^ length variables" "satisfies terms variables x" by auto
  let ?a = "assignment_of (length variables) x"
  have m: "minterm_of ?a = x" using x by (simp add: minterm_of_assignment_of)
  have "?a \<in> set (product01 (length variables))"
    by (simp add: set_product01 assignment_of_props)
  moreover have "term_satisfied terms (var_assignment variables ?a)"
    using term_satisfied_iff [of variables ?a terms] assms x m by (simp add: assignment_of_props)
  ultimately have "minterm_of ?a \<in> ?L" by auto
  with m show "x \<in> ?L" by simp
qed

text \<open>The minterms of an expression: empty without terms, the truth table otherwise.\<close>

lemma set_parse_expr_to_minterms:
  assumes "distinct variables"
  shows "set (parse_expr_to_minterms (Some e) variables) =
     (if e = [] \<or> strip e \<in> {[], ''-''} \<or> parse_terms e = [] then {}
      else {x. 0 \<le> x \<and> x < 2 ^ length variables \<and> satisfies (parse_terms e) variables x})"
  using set_truth_table [OF assms, of "parse_terms e"]
  by (simp add: parse_expr_to_minterms_def Let_def del: set_map)

subsection \<open>Prime implicants of an upward closed set\<close>

text \<open>A set of minterms over \<open>n\<close> variables is upward closed when it contains, with a
  minterm, every assignment that has a 1 wherever the minterm has. The expressions of
  the parser have such sets: they have no negated factor.\<close>

definition up_closed :: "nat \<Rightarrow> int set \<Rightarrow> bool" where
  "up_closed n S \<longleftrightarrow>
     (\<forall>x \<in> S. 0 \<le> x \<and> x < 2 ^ n) \<and>
     (\<forall>x \<in> S. \<forall>y. 0 \<le> y \<and> y < 2 ^ n \<and> x AND y = x \<longrightarrow> y \<in> S)"

text \<open>A minterm of the set with no other minterm of the set below it.\<close>

definition minimal_in :: "int set \<Rightarrow> int \<Rightarrow> bool" where
  "minimal_in S t \<longleftrightarrow> t \<in> S \<and> (\<forall>y \<in> S. y AND t = y \<longrightarrow> y = t)"

lemma and_eq_left_iff: "x AND y = x \<longleftrightarrow> (\<forall>i. bit (x :: int) i \<longrightarrow> bit y i)"
  using and_eq_iff_bits [of y x] by (simp add: and.commute)

lemma adjacent_unset:
  assumes "0 \<le> x" "bit x j"
  shows "adjacent_cells x (unset_bit j x)"
proof -
  have "0 \<le> unset_bit j x" using assms by simp
  moreover have "\<forall>i. (bit x i \<noteq> bit (unset_bit j x) i) = (i = j)"
    using assms(2) by (auto simp: bit_unset_bit_iff)
  ultimately show ?thesis
    using assms(1) adjacent_cells_nonneg_iff [of x "unset_bit j x"] by blast
qed

lemma adjacent_set:
  assumes "0 \<le> x" "\<not> bit x j"
  shows "adjacent_cells x (set_bit j x)"
proof -
  have "0 \<le> set_bit j x" using assms by simp
  moreover have "\<forall>i. (bit x i \<noteq> bit (set_bit j x) i) = (i = j)"
    using assms(2) by (auto simp: bit_set_bit_iff)
  ultimately show ?thesis
    using assms(1) adjacent_cells_nonneg_iff [of x "set_bit j x"] by blast
qed

text \<open>Two adjacent terms that are not negative: one is the other with one more bit.\<close>
lemma adjacent_nonneg_cases:
  assumes "adjacent_cells a b" "0 \<le> a" "0 \<le> b"
  obtains k where "\<not> bit a k" "b = set_bit k a" "a AND b = a"
        | k where "\<not> bit b k" "a = set_bit k b" "a AND b = b"
proof -
  from assms have "\<exists>k. \<forall>i. (bit a i \<noteq> bit b i) = (i = k)"
    using adjacent_cells_nonneg_iff [of a b] by simp
  then obtain k where k: "\<forall>i. (bit a i \<noteq> bit b i) = (i = k)" ..
  then have k1: "bit a k \<noteq> bit b k" and k2: "\<And>i. i \<noteq> k \<Longrightarrow> bit a i = bit b i"
    by blast+
  show ?thesis
  proof (cases "bit a k")
    case False
    with k1 have bk: "bit b k" by blast
    have 1: "b = set_bit k a"
    proof (rule bit_eqI)
      fix i
      show "bit b i = bit (set_bit k a) i"
        using k2 [of i] bk by (cases "i = k") (simp_all add: bit_set_bit_iff)
    qed
    have "bit a i \<longrightarrow> bit b i" for i
      using k2 [of i] False by (cases "i = k") simp_all
    then have 2: "a AND b = a" by (simp add: and_eq_left_iff)
    from False 1 2 show ?thesis by (rule that(1))
  next
    case True
    with k1 have bk: "\<not> bit b k" by blast
    have 1: "a = set_bit k b"
    proof (rule bit_eqI)
      fix i
      show "bit a i = bit (set_bit k b) i"
        using k2 [of i] True by (cases "i = k") (simp_all add: bit_set_bit_iff)
    qed
    have "bit b i \<longrightarrow> bit a i" for i
      using k2 [of i] bk by (cases "i = k") simp_all
    then have "b AND a = b" by (simp add: and_eq_left_iff)
    then have 2: "a AND b = b" by (simp add: and.commute)
    from bk 1 2 show ?thesis by (rule that(2))
  qed
qed

text \<open>The invariant of the level loop on an upward closed set \<open>S\<close>: every mask is its
  term, and the terms of the level are minterms of \<open>S\<close>, with every minterm of \<open>S\<close> below
  them.\<close>

definition level_ok :: "int set \<Rightarrow> implicant list \<Rightarrow> bool" where
  "level_ok S level \<longleftrightarrow>
     (\<forall>(t, m) \<in> set level. m = t) \<and>
     fst ` set level \<subseteq> S \<and>
     (\<forall>x \<in> fst ` set level. \<forall>y \<in> S. y AND x = y \<longrightarrow> y \<in> fst ` set level)"

lemma in_range_subset:
  fixes x y :: int
  assumes "0 \<le> x" "x < 2 ^ n" "\<forall>i. bit y i \<longrightarrow> bit x i"
  shows "0 \<le> y \<and> y < 2 ^ n"
  using assms int_range_iff_bits [of x n] int_range_iff_bits [of y n] by blast

lemma level_ok_next:
  assumes up: "up_closed n S" and ok: "level_ok S level"
  shows "level_ok S (fst (combine_level level))"
proof -
  define K where "K = fst ` set level"
  define K' where "K' = fst ` set (fst (combine_level level))"
  have K': "K' = {t1 AND t2 | t1 t2. t1 \<in> K \<and> t2 \<in> K \<and> adjacent_cells t1 t2}"
    unfolding K'_def K_def by (rule combine_level_keys)
  have KS: "K \<subseteq> S"
    using ok unfolding level_ok_def K_def by blast
  have down: "\<And>x y. x \<in> K \<Longrightarrow> y \<in> S \<Longrightarrow> y AND x = y \<Longrightarrow> y \<in> K"
    using ok unfolding level_ok_def K_def by blast
  have masks: "\<And>t m. (t, m) \<in> set level \<Longrightarrow> m = t"
    using ok unfolding level_ok_def by blast
  have range: "\<And>x. x \<in> S \<Longrightarrow> 0 \<le> x \<and> x < 2 ^ n"
    using up unfolding up_closed_def by blast
  have upS: "\<And>x y. x \<in> S \<Longrightarrow> 0 \<le> y \<Longrightarrow> y < 2 ^ n \<Longrightarrow> x AND y = x \<Longrightarrow> y \<in> S"
    using up unfolding up_closed_def by blast
  have 1: "m = t" if "(t, m) \<in> set (fst (combine_level level))" for t m
  proof -
    from combine_level_entries [OF that] obtain t1 m1 t2 m2
      where "(t1, m1) \<in> set level" "(t2, m2) \<in> set level"
        "t = t1 AND t2" "m = m1 AND m2 AND NOT (t1 XOR t2)" by blast
    moreover from this have "m1 = t1" "m2 = t2" by (auto dest: masks)
    moreover have "t1 AND t2 AND NOT (t1 XOR t2) = t1 AND t2"
      by (rule bit_eqI) (auto simp: bit_simps)
    ultimately show ?thesis by simp
  qed
  have step: "\<exists>x' k. x' \<in> K \<and> x \<in> K \<and> \<not> bit x k \<and> x' = set_bit k x" if "x \<in> K'" for x
  proof -
    from that obtain a b where ab: "x = a AND b" "a \<in> K" "b \<in> K" "adjacent_cells a b"
      by (auto simp: K')
    then have "0 \<le> a" "0 \<le> b" using KS range by auto
    with ab(4) show ?thesis
    proof (cases rule: adjacent_nonneg_cases)
      case (1 k)
      with ab show ?thesis by auto
    next
      case (2 k)
      with ab show ?thesis by auto
    qed
  qed
  have 2: "K' \<subseteq> S" using step KS by blast
  have 3: "y \<in> K'" if "x \<in> K'" "y \<in> S" "y AND x = y" for x y
  proof -
    from step [OF that(1)] obtain x' k where x': "x' \<in> K" "x \<in> K" "\<not> bit x k" "x' = set_bit k x"
      by blast
    have yx: "\<And>i. bit y i \<Longrightarrow> bit x i" using that(3) by (simp add: and_eq_left_iff)
    then have yk: "\<not> bit y k" using x'(3) by blast
    have y0: "0 \<le> y" using range that(2) by blast
    define w where "w = set_bit k y"
    have wx': "\<forall>i. bit w i \<longrightarrow> bit x' i"
      using yx by (auto simp: w_def x'(4) bit_set_bit_iff)
    have "0 \<le> x' \<and> x' < 2 ^ n" using x'(1) KS range by blast
    then have wr: "0 \<le> w \<and> w < 2 ^ n" using wx' in_range_subset by blast
    have "y AND w = y" unfolding and_eq_left_iff by (simp add: w_def bit_set_bit_iff)
    with that(2) wr have wS: "w \<in> S" by (intro upS [of y w]) auto
    have "w AND x' = w" unfolding and_eq_left_iff using wx' by blast
    with x'(1) wS have wK: "w \<in> K" by (rule down)
    have yK: "y \<in> K" using x'(2) that(2,3) by (rule down)
    have "adjacent_cells y w" unfolding w_def using y0 yk by (rule adjacent_set)
    with yK wK \<open>y AND w = y\<close> show ?thesis unfolding K' by force
  qed
  from 1 2 3 show ?thesis
    unfolding level_ok_def K'_def [symmetric] by blast
qed

lemma unused_iff:
  "(t, m) \<in> set (unused_terms level (snd (combine_level level))) \<longleftrightarrow>
     (t, m) \<in> set level \<and> \<not> (\<exists>t' \<in> fst ` set level. adjacent_cells t t')"
  by (force simp: unused_terms_def combine_level_used)

lemma level_step_minimal:
  assumes up: "up_closed n S" and ok: "level_ok S level"
  shows "{(t, t) | t. minimal_in S t \<and> t \<in> fst ` set level} =
     set (unused_terms level (snd (combine_level level))) \<union>
     {(t, t) | t. minimal_in S t \<and> t \<in> fst ` set (fst (combine_level level))}"
    (is "?A = ?B \<union> ?C")
proof -
  define K where "K = fst ` set level"
  define K' where "K' = fst ` set (fst (combine_level level))"
  have K': "K' = {t1 AND t2 | t1 t2. t1 \<in> K \<and> t2 \<in> K \<and> adjacent_cells t1 t2}"
    unfolding K'_def K_def by (rule combine_level_keys)
  have KS: "K \<subseteq> S"
    using ok unfolding level_ok_def K_def by blast
  have down: "\<And>x y. x \<in> K \<Longrightarrow> y \<in> S \<Longrightarrow> y AND x = y \<Longrightarrow> y \<in> K"
    using ok unfolding level_ok_def K_def by blast
  have masks: "\<And>t m. (t, m) \<in> set level \<Longrightarrow> m = t"
    using ok unfolding level_ok_def by blast
  have range: "\<And>x. x \<in> S \<Longrightarrow> 0 \<le> x \<and> x < 2 ^ n"
    using up unfolding up_closed_def by blast
  have upS: "\<And>x y. x \<in> S \<Longrightarrow> 0 \<le> y \<Longrightarrow> y < 2 ^ n \<Longrightarrow> x AND y = x \<Longrightarrow> y \<in> S"
    using up unfolding up_closed_def by blast
  have K'K: "K' \<subseteq> K"
    using level_ok_next [OF up ok] K'
  proof -
    have "x \<in> K" if "x \<in> K'" for x
    proof -
      from that obtain a b where ab: "x = a AND b" "a \<in> K" "b \<in> K" "adjacent_cells a b"
        by (auto simp: K')
      then have "0 \<le> a" "0 \<le> b" using KS range by auto
      with ab(4) show ?thesis
        by (cases rule: adjacent_nonneg_cases) (use ab in auto)
    qed
    then show ?thesis by blast
  qed
  have AB: "p \<in> ?B \<union> ?C" if "p \<in> ?A" for p
  proof -
    from that obtain t where t: "p = (t, t)" "minimal_in S t" "t \<in> K" by (auto simp: K_def)
    then obtain m where "(t, m) \<in> set level" by (auto simp: K_def)
    with masks have tt: "(t, t) \<in> set level" by blast
    show ?thesis
    proof (cases "\<exists>t' \<in> K. adjacent_cells t t'")
      case False
      with tt have "(t, t) \<in> ?B" by (simp add: unused_iff K_def)
      with t show ?thesis by simp
    next
      case True
      then obtain t' where t': "t' \<in> K" "adjacent_cells t t'" by blast
      then have "0 \<le> t" "0 \<le> t'" using t(3) KS range by auto
      with t'(2) have "t AND t' = t"
      proof (cases rule: adjacent_nonneg_cases)
        case (1 k)
        then show ?thesis by simp
      next
        case (2 k)
        then have "t' AND t = t'" by (simp add: and.commute)
        with t(2) t'(1) KS have "t' = t" by (auto simp: minimal_in_def)
        with t'(2) show ?thesis by simp
      qed
      with t' t(3) have "t \<in> K'" unfolding K' by force
      with t show ?thesis by (simp add: K'_def)
    qed
  qed
  have BA: "p \<in> ?A" if "p \<in> ?B" for p
  proof -
    obtain t m where p: "p = (t, m)" by (cases p)
    with that have tm: "(t, m) \<in> set level" and iso: "\<not> (\<exists>t' \<in> K. adjacent_cells t t')"
      by (simp_all add: unused_iff K_def)
    then have m: "m = t" and tK: "t \<in> K" by (auto dest: masks simp: K_def intro: rev_image_eqI)
    have tS: "t \<in> S" using tK KS by blast
    have "y = t" if y: "y \<in> S" "y AND t = y" for y
    proof (rule ccontr)
      assume "y \<noteq> t"
      have yt: "\<And>i. bit y i \<Longrightarrow> bit t i" using y(2) by (simp add: and_eq_left_iff)
      with \<open>y \<noteq> t\<close> obtain j where j: "bit t j" "\<not> bit y j"
        by (auto simp: bit_eq_iff)
      define z where "z = unset_bit j t"
      have t0: "0 \<le> t \<and> t < 2 ^ n" using tS range by blast
      have zt: "\<forall>i. bit z i \<longrightarrow> bit t i" by (simp add: z_def bit_unset_bit_iff)
      then have zr: "0 \<le> z \<and> z < 2 ^ n" using t0 in_range_subset by blast
      have "y AND z = y" unfolding and_eq_left_iff using yt j by (auto simp: z_def bit_unset_bit_iff)
      with y(1) zr have zS: "z \<in> S" by (intro upS [of y z]) auto
      have "z AND t = z" unfolding and_eq_left_iff using zt by blast
      with tK zS have "z \<in> K" by (rule down)
      moreover have "adjacent_cells t z" unfolding z_def using t0 j(1) by (intro adjacent_unset) auto
      ultimately show False using iso by blast
    qed
    with tS have "minimal_in S t" by (simp add: minimal_in_def)
    with tK p m show ?thesis by (simp add: K_def)
  qed
  have CA: "p \<in> ?A" if "p \<in> ?C" for p
  proof -
    from that obtain t where t: "p = (t, t)" "minimal_in S t" "t \<in> K'" by (auto simp: K'_def)
    with K'K have "t \<in> K" by blast
    with t show ?thesis by (simp add: K_def)
  qed
  show ?thesis
  proof (intro set_eqI iffI)
    fix p assume "p \<in> ?A"
    then show "p \<in> ?B \<union> ?C" by (rule AB)
  next
    fix p assume "p \<in> ?B \<union> ?C"
    then show "p \<in> ?A"
    proof
      assume "p \<in> ?B" then show ?thesis by (rule BA)
    next
      assume "p \<in> ?C" then show ?thesis by (rule CA)
    qed
  qed
qed

lemma qm_loop_up_closed:
  assumes "up_closed n S" "level_ok S level"
  shows "set (qm_loop level acc) = set acc \<union> {(t, t) | t. minimal_in S t \<and> t \<in> fst ` set level}"
  using assms(2)
proof (induction level acc rule: qm_loop.induct)
  case (1 current_level prime_implicants)
  show ?case
  proof (cases "current_level = []")
    case True
    then show ?thesis by (simp add: qm_loop.simps [of "[]"])
  next
    case False
    obtain next_level used where cl: "combine_level current_level = (next_level, used)"
      by (cases "combine_level current_level")
    have ok': "level_ok S next_level"
      using level_ok_next [OF assms(1) "1.prems"] cl by simp
    have "set (qm_loop current_level prime_implicants) =
        set (qm_loop next_level (prime_implicants @ unused_terms current_level used))"
      using False cl by (simp add: qm_loop.simps [of current_level])
    also have "\<dots> = set (prime_implicants @ unused_terms current_level used) \<union>
        {(t, t) | t. minimal_in S t \<and> t \<in> fst ` set next_level}"
      using "1.IH" [OF False cl [symmetric] ok'] .
    also have "\<dots> = set prime_implicants \<union>
        {(t, t) | t. minimal_in S t \<and> t \<in> fst ` set current_level}"
      using level_step_minimal [OF assms(1) "1.prems"] cl by auto
    finally show ?thesis .
  qed
qed

lemma level_ok_initial: "level_ok (set ms) (initial_level ms)"
proof -
  have "fst ` set (initial_level ms) = set ms"
    by (force simp: set_initial_level)
  then show ?thesis
    by (auto simp: level_ok_def set_initial_level)
qed

lemma set_find_prime_implicants:
  assumes "up_closed n (set ms)"
  shows "set (find_prime_implicants ms) = {(t, t) | t. minimal_in (set ms) t}"
proof (cases "ms = []")
  case True
  then show ?thesis by (simp add: find_prime_implicants_def minimal_in_def)
next
  case False
  have k: "fst ` set (initial_level ms) = set ms"
    by (force simp: set_initial_level)
  have "set (find_prime_implicants ms) =
      {(t, t) | t. minimal_in (set ms) t \<and> t \<in> fst ` set (initial_level ms)}"
    using qm_loop_up_closed [OF assms level_ok_initial, of "[]"] False
    by (simp add: find_prime_implicants_def)
  then show ?thesis unfolding k by (auto simp: minimal_in_def)
qed

subsection \<open>The cover of an upward closed set\<close>

lemma minimal_exists:
  assumes "\<forall>x \<in> S. 0 \<le> x" and "m \<in> S"
  shows "\<exists>t. minimal_in S t \<and> t AND m = t"
  using assms(2)
proof (induction "nat m" arbitrary: m rule: less_induct)
  case less
  show ?case
  proof (cases "minimal_in S m")
    case True
    then show ?thesis by (intro exI [of _ m]) simp
  next
    case False
    with less.prems obtain y where y: "y \<in> S" "y AND m = y" "y \<noteq> m"
      unfolding minimal_in_def by blast
    have m0: "0 \<le> m" and y0: "0 \<le> y" using assms(1) less.prems y(1) by blast+
    have "y AND m \<le> m" using m0 by (rule AND_upper2)
    with y have "y < m" by simp
    with y0 have "nat y < nat m" by simp
    from less.hyps [OF this y(1)] obtain t where t: "minimal_in S t" "t AND y = t" by blast
    have "\<forall>i. bit t i \<longrightarrow> bit m i"
      using t(2) y(2) unfolding and_eq_left_iff by blast
    then have "t AND m = t" by (simp add: and_eq_left_iff)
    with t(1) show ?thesis by blast
  qed
qed

lemma distinct_singleton: "distinct xs \<Longrightarrow> set xs = {x} \<Longrightarrow> xs = [x]"
  by (metis distinct.simps(2) empty_iff insert_iff list.exhaust list.set(1) list.set_intros(1) list.set_intros(2) singletonD)

lemma cover_all_minimal:
  assumes up: "up_closed n (set ms)"
    and pis: "set pis = {(t, t) | t. minimal_in (set ms) t}"
  shows "set (essential_prime_implicant_cover pis ms n) = set pis"
proof (cases "pis = [] \<or> ms = []")
  case True
  then show ?thesis by (auto simp: essential_prime_implicant_cover_def)
next
  case False
  define coverage where "coverage = coverage_table pis ms n"
  obtain essential cbe where ess: "essentials coverage ms = (essential, cbe)"
    by (cases "essentials coverage ms")
  have range: "\<And>x. x \<in> set ms \<Longrightarrow> 0 \<le> x \<and> x < 2 ^ n"
    using up unfolding up_closed_def by blast
  have cov: "x \<in> get_covered_minterms (t, t) n \<longleftrightarrow> 0 \<le> x \<and> x < 2 ^ n \<and> x AND t = t"
    if "minimal_in (set ms) t" for x t
  proof -
    from that have "t \<in> set ms" by (simp add: minimal_in_def)
    then have "0 \<le> t" "t < 2 ^ n" using range by blast+
    then show ?thesis by (simp add: covered_self_mask)
  qed
  have only: "covering coverage t = [(t, t)]" if t: "minimal_in (set ms) t" for t
  proof -
    have tS: "t \<in> set ms" using t by (simp add: minimal_in_def)
    have "set (covering coverage t) = {(t, t)}"
    proof (intro set_eqI iffI)
      fix p assume "p \<in> set (covering coverage t)"
      then have p: "p \<in> set pis" "t \<in> get_covered_minterms p n"
        by (simp_all add: coverage_def set_covering)
      then obtain t' where t': "p = (t', t')" "minimal_in (set ms) t'"
        using pis by auto
      with p(2) have "t AND t' = t'" by (simp add: cov)
      then have "t' AND t = t'" by (simp add: and.commute)
      moreover have "t' \<in> set ms" using t'(2) by (simp add: minimal_in_def)
      ultimately have "t' = t" using t unfolding minimal_in_def by blast
      with t' show "p \<in> {(t, t)}" by simp
    next
      fix p assume "p \<in> {(t, t)}"
      then have p: "p = (t, t)" by simp
      have "(t, t) \<in> set pis" using pis t by blast
      moreover have "t \<in> get_covered_minterms (t, t) n"
        using cov [OF t, of t] range [OF tS] by simp
      ultimately show "p \<in> set (covering coverage t)"
        using tS by (simp add: p coverage_def set_covering)
    qed
    moreover have "distinct (covering coverage t)"
      unfolding coverage_def by (rule distinct_covering)
    ultimately show ?thesis by (intro distinct_singleton)
  qed
  have e_sub: "set essential \<subseteq> set pis"
    using essentials_subset [of pis ms n ms] ess by (simp add: coverage_def)
  have e_sup: "set pis \<subseteq> set essential"
  proof
    fix p assume "p \<in> set pis"
    then obtain t where t: "p = (t, t)" "minimal_in (set ms) t" using pis by auto
    then have "t \<in> set ms" by (simp add: minimal_in_def)
    with only [OF t(2)] have "(t, t) \<in> set (fst (essentials coverage ms))"
      unfolding set_essentials by blast
    with t ess show "p \<in> set essential" by simp
  qed
  have e: "set essential = set pis" using e_sub e_sup by blast
  have cbe: "cbe = \<Union> (dict_get coverage ` set pis)"
    using covered_essentials [of coverage ms] ess e by simp
  have "m \<in> cbe" if m: "m \<in> set ms" for m
  proof -
    have "\<forall>x \<in> set ms. 0 \<le> x" using range by blast
    from minimal_exists [OF this m] obtain t where t: "minimal_in (set ms) t" "t AND m = t"
      by blast
    then have "m AND t = t" by (simp add: and.commute)
    then have "m \<in> get_covered_minterms (t, t) n" using range [OF m] by (simp add: cov [OF t(1)])
    moreover have tp: "(t, t) \<in> set pis" using pis t(1) by blast
    ultimately have "m \<in> dict_get coverage (t, t)"
      using m by (simp add: coverage_def dict_get_coverage)
    with tp show ?thesis unfolding cbe by blast
  qed
  then have "filter (\<lambda>m. m \<notin> cbe) ms = []" by (simp add: filter_empty_conv)
  with False have "essential_prime_implicant_cover pis ms n = essential"
    by (simp add: essential_prime_implicant_cover_def Let_def coverage_def [symmetric] ess)
  with e show ?thesis by simp
qed

section \<open>The claims\<close>

subsection \<open>C8: substitution end to end\<close>

text \<open>
  Claim C8 (Scenario C). Minimising the primary expression \<^verbatim>\<open>[P]\<close> with the secondary
  expression \<^verbatim>\<open>[Q]\<close>: the universe is \<open>{P, Q}\<close>, in the order \<open>P, Q\<close> (so \<open>P\<close> is bit 1 and
  \<open>Q\<close> is bit 0); the primary minterms are 2 and 3, both with \<open>P = 1\<close>; the secondary
  minterm over \<open>{Q}\<close> is 1; each primary minterm is replaced by the secondary minterm
  moved to the position of \<open>Q\<close>, with the bit of \<open>P\<close> cleared; the final minterm set is
  \<open>{1}\<close> (\<open>Q = 1\<close>, \<open>P = 0\<close>); and the canonical output is \<^verbatim>\<open>[Q]\<close>.
\<close>

theorem scenario_C_substitution:
  "universe (Some ''[P]'') (Some ''[Q]'') = {CHR ''P'', CHR ''Q''} \<and>
   sorted_list_of_set (universe (Some ''[P]'') (Some ''[Q]'')) = ''PQ'' \<and>
   parse_expr_to_minterms (Some ''[P]'') ''PQ'' = [2, 3] \<and>
   parse_expr_to_minterms (Some ''[Q]'') (filter (\<lambda>v. v \<noteq> CHR ''P'') ''PQ'') = [1] \<and>
   expand_step ''PQ'' [1] 2 [] = [1] \<and>
   expand_step ''PQ'' [1] 3 [1] = [1] \<and>
   expand_minterms ''PQ'' [1] [2, 3] = [1] \<and>
   compute_kmap (Some ''[P]'') (Some ''[Q]'') = ''[Q]''"
  by code_simp

subsection \<open>C10: a secondary expression without terms\<close>

text \<open>
  Claim C10. When the secondary (reset) expression is a non-empty string in which the
  parser finds no term (the placeholder \<^verbatim>\<open>-\<close>, for one) and \<open>P\<close> is in the universe, the
  substitution is performed with no secondary minterm: the minimised set is the set of
  the primary minterms whose \<open>P\<close> bit is 0, every minterm with the \<open>P\<close> bit set being
  dropped. So \<^verbatim>\<open>[P]\<close> with the secondary \<^verbatim>\<open>-\<close> gives the empty string, while \<^verbatim>\<open>[P]\<close> with
  no secondary expression gives \<^verbatim>\<open>[P]\<close>.
\<close>

theorem empty_secondary_discards_pivot:
  "(\<forall>base_expr r. r \<noteq> [] \<and> no_terms r \<and> CHR ''P'' \<in> universe base_expr (Some r) \<longrightarrow>
      (let variables = sorted_list_of_set (universe base_expr (Some r));
           base_minterms = parse_expr_to_minterms base_expr variables
       in compute_kmap base_expr (Some r) =
            minimize_karnaugh (expand_minterms variables [] base_minterms) variables \<and>
          set (expand_minterms variables [] base_minterms) =
            {m \<in> set base_minterms. m AND p_bit_of variables = 0})) \<and>
   compute_kmap (Some ''[P]'') (Some ''-'') = [] \<and>
   compute_kmap (Some ''[P]'') None = ''[P]''"
proof (intro conjI allI impI)
  fix base_expr r
  assume a: "r \<noteq> [] \<and> no_terms r \<and> CHR ''P'' \<in> universe base_expr (Some r)"
  define variables where "variables = sorted_list_of_set (universe base_expr (Some r))"
  have P: "CHR ''P'' \<in> set variables" using a by (simp add: variables_def)
  have ne: "universe base_expr (Some r) \<noteq> {}" using a by auto
  have t: "truthy (Some r)" using a by (simp add: truthy_def)
  have "compute_kmap base_expr (Some r) =
      minimize_karnaugh (expand_minterms variables [] (parse_expr_to_minterms base_expr variables)) variables"
    using a ne t by (simp add: compute_kmap_def Let_def variables_def [symmetric] parse_no_terms)
  moreover have "set (expand_minterms variables [] (parse_expr_to_minterms base_expr variables)) =
      {m \<in> set (parse_expr_to_minterms base_expr variables). m AND p_bit_of variables = 0}"
    using P by (simp add: set_expand_minterms)
  ultimately show "let variables = sorted_list_of_set (universe base_expr (Some r));
           base_minterms = parse_expr_to_minterms base_expr variables
       in compute_kmap base_expr (Some r) =
            minimize_karnaugh (expand_minterms variables [] base_minterms) variables \<and>
          set (expand_minterms variables [] base_minterms) =
            {m \<in> set base_minterms. m AND p_bit_of variables = 0}"
    by (simp add: Let_def variables_def)
next
  show "compute_kmap (Some ''[P]'') (Some ''-'') = []" by code_simp
  show "compute_kmap (Some ''[P]'') None = ''[P]''" by code_simp
qed

theorem empty_secondary_discards_pivot_witness:
  "''-'' \<noteq> [] \<and> no_terms ''-'' \<and> CHR ''P'' \<in> universe (Some ''[P]'') (Some ''-'') \<and>
   compute_kmap (Some ''[P]'') (Some ''-'') =
     minimize_karnaugh (expand_minterms ''P'' [] [1]) ''P'' \<and>
   set (expand_minterms ''P'' [] [1]) = {}"
proof -
  have h: "''-'' \<noteq> [] \<and> no_terms ''-'' \<and> CHR ''P'' \<in> universe (Some ''[P]'') (Some ''-'')"
    by code_simp
  have v: "sorted_list_of_set (universe (Some ''[P]'') (Some ''-'')) = ''P''" by code_simp
  have b: "parse_expr_to_minterms (Some ''[P]'') ''P'' = [1]" by code_simp
  have p: "{m \<in> set [1 :: int]. m AND p_bit_of ''P'' = 0} = {}" by code_simp
  from empty_secondary_discards_pivot h
  have "let variables = sorted_list_of_set (universe (Some ''[P]'') (Some ''-''));
           base_minterms = parse_expr_to_minterms (Some ''[P]'') variables
       in compute_kmap (Some ''[P]'') (Some ''-'') =
            minimize_karnaugh (expand_minterms variables [] base_minterms) variables \<and>
          set (expand_minterms variables [] base_minterms) =
            {m \<in> set base_minterms. m AND p_bit_of variables = 0}"
    by blast
  with h show ?thesis unfolding Let_def v b p by simp
qed

subsection \<open>C6: the bound on the universe\<close>

text \<open>
  Claim C6. With more than 6 variables \<^verbatim>\<open>minimize_karnaugh\<close> returns the empty string
  without looking for prime implicants, whatever the minterms are, and so does
  \<^verbatim>\<open>compute_kmap\<close> when the universe of its expressions has more than 6 symbols; the
  result is an ordinary return value. With at most 6 variables (and some minterm) the
  result is the one of the search: prime implicants, cover, formatting.
\<close>

theorem universe_bound:
  "(\<forall>minterms variables. length variables > 6 \<longrightarrow> minimize_karnaugh minterms variables = []) \<and>
   (\<forall>base_expr reset_expr. card (universe base_expr reset_expr) > 6 \<longrightarrow>
      compute_kmap base_expr reset_expr = []) \<and>
   (\<forall>minterms variables. length variables \<le> 6 \<and> minterms \<noteq> [] \<longrightarrow>
      minimize_karnaugh minterms variables =
        (let prime_implicants = find_prime_implicants minterms
         in if prime_implicants = [] then []
            else format_cover
                   (essential_prime_implicant_cover prime_implicants minterms (length variables))
                   variables))"
proof (intro conjI allI impI)
  fix minterms :: "int list" and variables :: string
  assume "length variables > 6"
  then show "minimize_karnaugh minterms variables = []"
    by (simp add: minimize_karnaugh_def Let_def)
next
  fix base_expr reset_expr
  assume c: "card (universe base_expr reset_expr) > 6"
  have "length (sorted_list_of_set (universe base_expr reset_expr)) = card (universe base_expr reset_expr)"
    by simp
  with c have "6 < length (sorted_list_of_set (universe base_expr reset_expr))" by simp
  then show "compute_kmap base_expr reset_expr = []"
    by (simp add: compute_kmap_def minimize_karnaugh_def Let_def del: sorted_list_of_set.length_sorted_key_list_of_set)
next
  fix minterms :: "int list" and variables :: string
  assume "length variables \<le> 6 \<and> minterms \<noteq> []"
  then show "minimize_karnaugh minterms variables =
        (let prime_implicants = find_prime_implicants minterms
         in if prime_implicants = [] then []
            else format_cover
                   (essential_prime_implicant_cover prime_implicants minterms (length variables))
                   variables)"
    by (simp add: minimize_karnaugh_def Let_def)
qed

theorem universe_bound_witness:
  "length ''ABCDEFG'' > 6 \<and> minimize_karnaugh [127] ''ABCDEFG'' = [] \<and>
   card (universe (Some ''[ABCDEFG]'') None) > 6 \<and> compute_kmap (Some ''[ABCDEFG]'') None = [] \<and>
   length ''ABCDEF'' \<le> 6 \<and> [63 :: int] \<noteq> [] \<and>
   minimize_karnaugh [63] ''ABCDEF'' =
     (let prime_implicants = find_prime_implicants [63]
      in if prime_implicants = [] then []
         else format_cover
                (essential_prime_implicant_cover prime_implicants [63] (length ''ABCDEF''))
                ''ABCDEF'')
   \<and> minimize_karnaugh [63] ''ABCDEF'' = ''[ABCDEF]''"
proof -
  have h1: "length ''ABCDEFG'' > 6" by simp
  have h2: "card (universe (Some ''[ABCDEFG]'') None) > 6" by code_simp
  have h3: "length ''ABCDEF'' \<le> 6 \<and> [63 :: int] \<noteq> []" by simp
  have e: "minimize_karnaugh [63] ''ABCDEF'' = ''[ABCDEF]''" by code_simp
  from universe_bound h1 have "minimize_karnaugh [127] ''ABCDEFG'' = []" by blast
  moreover from universe_bound h2 have "compute_kmap (Some ''[ABCDEFG]'') None = []" by blast
  moreover from universe_bound h3 have "minimize_karnaugh [63] ''ABCDEF'' =
     (let prime_implicants = find_prime_implicants [63]
      in if prime_implicants = [] then []
         else format_cover
                (essential_prime_implicant_cover prime_implicants [63] (length ''ABCDEF''))
                ''ABCDEF'')"
    by blast
  ultimately show ?thesis using h1 h2 h3 e by blast
qed

subsection \<open>C5: the bracket groups the parser recognises\<close>

text \<open>
  Claim C5 says that white space may stand between the letters of a group, so that
  \<^verbatim>\<open>[A B]\<close> would give the term \<open>{A, B}\<close>. The pattern \<^verbatim>\<open>\[\s*([A-Z]+)\s*\]\<close> has one run of
  letters: \<^verbatim>\<open>[A B]\<close> is no match and gives no term at all.
\<close>

theorem interspersed_whitespace_counterexample:
  "findall ''[A B]'' = [] \<and> parse_terms ''[A B]'' \<noteq> [{CHR ''A'', CHR ''B''}] \<and>
   parse_expr_to_minterms (Some ''[A B]'') ''AB'' = [] \<and>
   parse_expr_to_minterms (Some ''[AB]'') ''AB'' = [3]"
  by code_simp

text \<open>
  Claim C5, amended. The parser recognises every bracket group that consists of \<^verbatim>\<open>[\<close>,
  white space (possibly none), one or more upper-case letters in one run, white space
  (possibly none) and \<^verbatim>\<open>]\<close>, wherever it stands in the text, and strips the white space:
  the group gives the term of exactly its letters, and the text before and after it is
  parsed as it would be alone. So \<^verbatim>\<open>[ AB ]\<close> gives the term \<open>{A, B}\<close>; a group with white
  space between its letters, such as \<^verbatim>\<open>[A B]\<close>, gives no term.
\<close>

theorem parser_bracket_groups:
  "(\<forall>pre ws1 letters ws2 rest.
      (\<forall>c \<in> set ws1. is_space c) \<and> letters \<noteq> [] \<and> (\<forall>c \<in> set letters. is_upper c) \<and>
      (\<forall>c \<in> set ws2. is_space c) \<longrightarrow>
      parse_terms (pre @ ''['' @ ws1 @ letters @ ws2 @ '']'' @ rest) =
        parse_terms pre @ set letters # parse_terms rest) \<and>
   parse_terms ''[ AB ]'' = [{CHR ''A'', CHR ''B''}] \<and>
   parse_terms ''[A B]'' = []"
proof (intro conjI allI impI)
  fix pre ws1 letters ws2 rest
  assume a: "(\<forall>c \<in> set ws1. is_space c) \<and> letters \<noteq> [] \<and> (\<forall>c \<in> set letters. is_upper c) \<and>
      (\<forall>c \<in> set ws2. is_space c)"
  then have "set (filter isalpha letters) = set letters"
    by (auto intro: is_upper_isalpha)
  with a show "parse_terms (pre @ ''['' @ ws1 @ letters @ ws2 @ '']'' @ rest) =
        parse_terms pre @ set letters # parse_terms rest"
    by (simp add: parse_terms_def findall_group del: append_Cons set_filter)
next
  show "parse_terms ''[ AB ]'' = [{CHR ''A'', CHR ''B''}]" by code_simp
  show "parse_terms ''[A B]'' = []" by code_simp
qed

theorem parser_bracket_groups_witness:
  "list_all is_space ''  '' \<and> ''AC'' \<noteq> [] \<and> list_all is_upper ''AC'' \<and> list_all is_space '' '' \<and>
   parse_terms (''x[B]y'' @ ''['' @ ''  '' @ ''AC'' @ '' '' @ '']'' @ ''[D]'') =
     parse_terms ''x[B]y'' @ set ''AC'' # parse_terms ''[D]'' \<and>
   parse_terms ''x[B]y[  AC ][D]'' = [{CHR ''B''}, {CHR ''A'', CHR ''C''}, {CHR ''D''}]"
proof -
  have h: "(\<forall>c \<in> set ''  ''. is_space c) \<and> ''AC'' \<noteq> [] \<and> (\<forall>c \<in> set ''AC''. is_upper c) \<and>
   (\<forall>c \<in> set '' ''. is_space c)" by code_simp
  have e: "parse_terms ''x[B]y[  AC ][D]'' = [{CHR ''B''}, {CHR ''A'', CHR ''C''}, {CHR ''D''}]"
    by code_simp
  from parser_bracket_groups h
  have "parse_terms (''x[B]y'' @ ''['' @ ''  '' @ ''AC'' @ '' '' @ '']'' @ ''[D]'') =
     parse_terms ''x[B]y'' @ set ''AC'' # parse_terms ''[D]''" by blast
  moreover have "list_all is_space ''  '' \<and> ''AC'' \<noteq> [] \<and> list_all is_upper ''AC'' \<and> list_all is_space '' ''"
    by code_simp
  ultimately show ?thesis using e by blast
qed

subsection \<open>C4: the implicants of generation zero\<close>

text \<open>
  Claim C4 says that the implicant \<open>(m, m)\<close> built from the minterm \<open>m\<close> has every bit
  specified and covers \<open>m\<close> alone. In the code a 0 bit of the mask is a don't-care bit,
  and the mask of the first level is the minterm itself: over two variables the
  implicant of the minterm 1 covers 1 and 3.
\<close>

theorem initial_implicant_counterexample:
  "initial_level [1] = [(1, 1)] \<and> (1 :: int) < 2 ^ 2 \<and>
   get_covered_minterms (1, 1) 2 = {1, 3} \<and> get_covered_minterms (1, 1) 2 \<noteq> {1}"
  by code_simp

text \<open>
  Claim C4, amended. The finder starts with one implicant per minterm, whose value and
  mask are both the minterm. Only the 1 bits of the minterm are specified; its 0 bits
  are don't-care: over \<open>n\<close> variables the implicant of generation zero built from the
  minterm \<open>m\<close> covers exactly the minterms of the universe that have a 1 wherever \<open>m\<close> has.
\<close>

theorem initial_implicant_coverage:
  "(\<forall>minterms. minterms \<noteq> [] \<longrightarrow> find_prime_implicants minterms = qm_loop (initial_level minterms) []) \<and>
   (\<forall>minterms. set (initial_level minterms) = (\<lambda>m. (m, m)) ` set minterms) \<and>
   (\<forall>minterms. distinct minterms \<longrightarrow> initial_level minterms = map (\<lambda>m. (m, m)) minterms) \<and>
   (\<forall>m n. 0 \<le> m \<and> m < 2 ^ n \<longrightarrow>
      get_covered_minterms (m, m) n = {x. 0 \<le> x \<and> x < 2 ^ n \<and> x AND m = m})"
  by (simp add: find_prime_implicants_def set_initial_level initial_level_distinct covered_self_mask)

theorem initial_implicant_coverage_witness:
  "find_prime_implicants [1, 3] = qm_loop (initial_level [1, 3]) [] \<and>
   initial_level [1, 3] = [(1, 1), (3, 3)] \<and>
   get_covered_minterms (1, 1) 2 = {x. 0 \<le> x \<and> x < 2 ^ 2 \<and> x AND 1 = 1} \<and>
   get_covered_minterms (1, 1) 2 = {1, 3}"
proof -
  have h1: "[1, 3 :: int] \<noteq> []" and h2: "distinct [1, 3 :: int]" and h3: "(0 :: int) \<le> 1 \<and> (1 :: int) < 2 ^ 2"
    by simp_all
  have e: "get_covered_minterms (1, 1) 2 = {1, 3}" by code_simp
  from initial_implicant_coverage h1
  have "find_prime_implicants [1, 3] = qm_loop (initial_level [1, 3]) []" by blast
  moreover from initial_implicant_coverage h2
  have "initial_level [1, 3] = map (\<lambda>m. (m, m)) [1, 3]" by blast
  moreover from initial_implicant_coverage h3
  have "get_covered_minterms (1, 1) 2 = {x. 0 \<le> x \<and> x < 2 ^ 2 \<and> x AND 1 = 1}" by blast
  ultimately show ?thesis using e by simp
qed

subsection \<open>C3: when two implicants merge\<close>

text \<open>
  Claim C3 says that two implicants merge only if their masks are equal and the bit in
  which their values differ is relevant in both. The code compares the values only. In
  generation zero of the minterms 2 and 3 the implicants \<open>(2, 2)\<close> and \<open>(3, 3)\<close> have
  different masks, and bit 0, in which the values differ, is not in the mask of
  \<open>(2, 2)\<close>; they are merged into \<open>(2, 2)\<close> all the same.
\<close>

theorem merge_mask_counterexample:
  "initial_level [2, 3] = [(2, 2), (3, 3)] \<and> snd (2 :: int, 2 :: int) \<noteq> snd (3 :: int, 3 :: int) \<and>
   \<not> bit (snd (2 :: int, 2 :: int)) 0 \<and> bit ((2 :: int) XOR 3) 0 \<and>
   combine_level (initial_level [2, 3]) = ([(2, 2)], {2, 3}) \<and>
   find_prime_implicants [2, 3] = [(2, 2)]"
proof -
  have "initial_level [2, 3] = [(2, 2), (3, 3)]" by code_simp
  moreover have "combine_level (initial_level [2, 3]) = ([(2, 2)], {2, 3})" by code_simp
  moreover have "find_prime_implicants [2, 3] = [(2, 2)]" by code_simp
  ultimately show ?thesis by simp
qed

text \<open>
  Claim C3, amended. Within a generation two implicants are merged if and only if
  their values differ in exactly one bit (for values that are not negative,
  \<^verbatim>\<open>adjacent_cells\<close> says just that); their masks are not compared. So the implicants
  used up by the merges of a generation are those with an adjacent value in the
  generation, and the values of the next generation are the conjunctions of the
  adjacent pairs. A merged implicant keeps the bits common to the two values, and its
  mask is the conjunction of the two masks with the differing bit cleared.
\<close>

theorem merge_rule:
  "(\<forall>t1 t2. 0 \<le> t1 \<and> 0 \<le> t2 \<longrightarrow>
      adjacent_cells t1 t2 = (\<exists>k. \<forall>i. (bit t1 i \<noteq> bit t2 i) = (i = k))) \<and>
   (\<forall>items. snd (combine_level items) =
      {t \<in> fst ` set items. \<exists>t' \<in> fst ` set items. adjacent_cells t t'}) \<and>
   (\<forall>items. fst ` set (fst (combine_level items)) =
      {t1 AND t2 | t1 t2. t1 \<in> fst ` set items \<and> t2 \<in> fst ` set items \<and> adjacent_cells t1 t2}) \<and>
   (\<forall>items t m. (t, m) \<in> set (fst (combine_level items)) \<longrightarrow>
      (\<exists>t1 m1 t2 m2. (t1, m1) \<in> set items \<and> (t2, m2) \<in> set items \<and> adjacent_cells t1 t2 \<and>
         t = t1 AND t2 \<and> m = m1 AND m2 AND NOT (t1 XOR t2))) \<and>
   (\<forall>(t1 :: int) (m1 :: int) t2 m2 i.
      bit (t1 AND t2) i = (bit t1 i \<and> bit t2 i) \<and>
      bit (m1 AND m2 AND NOT (t1 XOR t2)) i = (bit m1 i \<and> bit m2 i \<and> bit t1 i = bit t2 i))"
proof -
  have A: "\<forall>t1 t2. 0 \<le> t1 \<and> 0 \<le> t2 \<longrightarrow>
      adjacent_cells t1 t2 = (\<exists>k. \<forall>i. (bit t1 i \<noteq> bit t2 i) = (i = k))"
    using adjacent_cells_nonneg_iff by blast
  have B: "\<forall>items. snd (combine_level items) =
      {t \<in> fst ` set items. \<exists>t' \<in> fst ` set items. adjacent_cells t t'}"
    by (simp add: combine_level_used)
  have C: "\<forall>items. fst ` set (fst (combine_level items)) =
      {t1 AND t2 | t1 t2. t1 \<in> fst ` set items \<and> t2 \<in> fst ` set items \<and> adjacent_cells t1 t2}"
    using combine_level_keys by blast
  have D: "\<forall>items t m. (t, m) \<in> set (fst (combine_level items)) \<longrightarrow>
      (\<exists>t1 m1 t2 m2. (t1, m1) \<in> set items \<and> (t2, m2) \<in> set items \<and> adjacent_cells t1 t2 \<and>
         t = t1 AND t2 \<and> m = m1 AND m2 AND NOT (t1 XOR t2))"
    using combine_level_entries by blast
  have E: "\<forall>(t1 :: int) (m1 :: int) t2 m2 i.
      bit (t1 AND t2) i = (bit t1 i \<and> bit t2 i) \<and>
      bit (m1 AND m2 AND NOT (t1 XOR t2)) i = (bit m1 i \<and> bit m2 i \<and> bit t1 i = bit t2 i)"
    by (auto simp: bit_simps)
  from A B C D E show ?thesis by (intro conjI)
qed

theorem merge_rule_witness:
  "adjacent_cells 2 3 = (\<exists>k. \<forall>i. (bit (2 :: int) i \<noteq> bit (3 :: int) i) = (i = k)) \<and>
   adjacent_cells 2 3 \<and>
   snd (combine_level [(2, 2), (3, 3)]) = {2, 3} \<and>
   fst (combine_level [(2, 2), (3, 3)]) = [(2, 2 AND 3 AND NOT (2 XOR 3))]"
proof -
  have h: "(0 :: int) \<le> 2 \<and> (0 :: int) \<le> 3" by simp
  have e: "combine_level [(2, 2), (3, 3)] = ([(2, 2)], {2, 3})" by code_simp
  have a: "adjacent_cells 2 3" by code_simp
  have e': "(2 :: int) AND 3 AND NOT (2 XOR 3) = 2" by simp
  from merge_rule
  have "\<forall>t1 t2. 0 \<le> t1 \<and> 0 \<le> t2 \<longrightarrow>
      adjacent_cells t1 t2 = (\<exists>k. \<forall>i. (bit t1 i \<noteq> bit t2 i) = (i = k))"
    by (rule conjunct1)
  then have "(0 :: int) \<le> 2 \<and> (0 :: int) \<le> 3 \<longrightarrow>
      adjacent_cells 2 3 = (\<exists>k. \<forall>i. (bit (2 :: int) i \<noteq> bit (3 :: int) i) = (i = k))"
    by (elim allE)
  with h have 1: "adjacent_cells 2 3 = (\<exists>k. \<forall>i. (bit (2 :: int) i \<noteq> bit (3 :: int) i) = (i = k))"
    by (rule rev_mp)
  have 3: "snd (combine_level [(2, 2), (3, 3)]) = {2, 3}" by (simp only: e snd_conv)
  have 4: "fst (combine_level [(2, 2), (3, 3)]) = [(2, 2 AND 3 AND NOT (2 XOR 3))]"
    by (simp only: e e' fst_conv)
  from 1 a 3 4 show ?thesis by (intro conjI)
qed

subsection \<open>C2: a target minterm that no prime implicant covers\<close>

text \<open>
  Claim C2 says that a target minterm covered by no prime implicant makes the cover
  computation fail visibly. The code skips its empty clause (\<^verbatim>\<open>if not idxs: continue\<close>):
  with the six prime implicants of the cyclic function on \<open>{0, 1, 2, 5, 6, 7}\<close> and the
  extra target minterm 4, which none of them covers, the function returns the same
  three implicants as without the minterm 4, as an ordinary result.
\<close>

theorem uncovered_minterm_counterexample:
  "4 \<in> set [0, 1, 2, 4, 5, 6, 7 :: int] \<and>
   4 \<notin> (\<Union>pi \<in> set [(0, 6), (0, 5), (1, 3), (2, 3), (5, 5), (6, 6)]. get_covered_minterms pi 3) \<and>
   essential_prime_implicant_cover [(0, 6), (0, 5), (1, 3), (2, 3), (5, 5), (6, 6)]
     [0, 1, 2, 4, 5, 6, 7] 3 = [(0, 6), (2, 3), (5, 5)] \<and>
   essential_prime_implicant_cover [(0, 6), (0, 5), (1, 3), (2, 3), (5, 5), (6, 6)]
     [0, 1, 2, 5, 6, 7] 3 = [(0, 6), (2, 3), (5, 5)]"
  by code_simp

text \<open>
  Claim C2, amended. During exact-cover solving, a target minterm that no prime implicant
  covers has no covering implicant in the coverage table, and the loop that builds the
  clauses leaves the clauses as they are for it. The computation goes on and returns, as
  its ordinary result, a cover made of implicants of the given list, none of which
  covers that minterm.
\<close>

theorem uncovered_minterm_skipped:
  "\<forall>pis ms n m. m \<in> set ms \<and> (\<forall>pi \<in> set pis. m \<notin> get_covered_minterms pi n) \<longrightarrow>
     covering (coverage_table pis ms n) m = [] \<and>
     (\<forall>index_of essential clauses.
        clause_step (coverage_table pis ms n) index_of essential m clauses = clauses) \<and>
     set (essential_prime_implicant_cover pis ms n) \<subseteq> set pis \<and>
     (\<forall>pi \<in> set (essential_prime_implicant_cover pis ms n). m \<notin> get_covered_minterms pi n)"
proof (intro allI impI)
  fix pis ms n m
  assume a: "m \<in> set ms \<and> (\<forall>pi \<in> set pis. m \<notin> get_covered_minterms pi n)"
  have "set (covering (coverage_table pis ms n) m) = {}"
    using a by (auto simp: set_covering)
  then have 1: "covering (coverage_table pis ms n) m = []" by simp
  then have 2: "\<forall>index_of essential clauses.
        clause_step (coverage_table pis ms n) index_of essential m clauses = clauses"
    by (simp add: clause_step_def)
  have 3: "set (essential_prime_implicant_cover pis ms n) \<subseteq> set pis" by (rule cover_subset)
  with a have 4: "\<forall>pi \<in> set (essential_prime_implicant_cover pis ms n). m \<notin> get_covered_minterms pi n"
    by blast
  from 1 2 3 4 show "covering (coverage_table pis ms n) m = [] \<and>
     (\<forall>index_of essential clauses.
        clause_step (coverage_table pis ms n) index_of essential m clauses = clauses) \<and>
     set (essential_prime_implicant_cover pis ms n) \<subseteq> set pis \<and>
     (\<forall>pi \<in> set (essential_prime_implicant_cover pis ms n). m \<notin> get_covered_minterms pi n)"
    by (intro conjI)
qed

theorem uncovered_minterm_skipped_witness:
  "covering (coverage_table [(1, 1)] [1, 2] 2) 2 = [] \<and>
   clause_step (coverage_table [(1, 1)] [1, 2] 2) (index_table [(1, 1)]) [(1, 1)] 2 [] = [] \<and>
   set (essential_prime_implicant_cover [(1, 1)] [1, 2] 2) \<subseteq> set [(1, 1)] \<and>
   list_all (\<lambda>pi. 2 \<notin> get_covered_minterms pi 2) (essential_prime_implicant_cover [(1, 1)] [1, 2] 2) \<and>
   essential_prime_implicant_cover [(1, 1)] [1, 2] 2 = [(1, 1)]"
proof -
  have h: "(2 :: int) \<in> set [1, 2] \<and> (\<forall>pi \<in> set [(1, 1)]. 2 \<notin> get_covered_minterms pi 2)"
    by code_simp
  have e: "essential_prime_implicant_cover [(1, 1)] [1, 2] 2 = [(1, 1)]" by code_simp
  note w = uncovered_minterm_skipped [rule_format, of 2 "[1, 2]" "[(1, 1)]" 2, OF h]
  from w have 1: "covering (coverage_table [(1, 1)] [1, 2] 2) 2 = []" by (rule conjunct1)
  from w have "\<forall>index_of essential clauses.
        clause_step (coverage_table [(1, 1)] [1, 2] 2) index_of essential 2 clauses = clauses"
    by (elim conjE)
  then have 2: "clause_step (coverage_table [(1, 1)] [1, 2] 2) (index_table [(1, 1)]) [(1, 1)] 2 [] = []"
    by (elim allE)
  from w have 3: "set (essential_prime_implicant_cover [(1, 1)] [1, 2] 2) \<subseteq> set [(1, 1)]"
    by (elim conjE)
  from w have "\<forall>pi \<in> set (essential_prime_implicant_cover [(1, 1)] [1, 2] 2). 2 \<notin> get_covered_minterms pi 2"
    by (elim conjE)
  then have 4: "list_all (\<lambda>pi. 2 \<notin> get_covered_minterms pi 2) (essential_prime_implicant_cover [(1, 1)] [1, 2] 2)"
    by (simp only: list_all_iff)
  from 1 2 3 4 e show ?thesis by (intro conjI)
qed

subsection \<open>C7: the choice among the final products\<close>

text \<open>
  Claim C7. The product chosen after Petrick's method is one of the final products; its
  cost is least among them, the cost being the pair of the number of implicants and the
  sum of their literal counts, compared lexicographically; and among the products of that
  cost its sorted index tuple is least. The literal count of an implicant is the number of
  1 bits of its mask. \<^verbatim>\<open>reduce_products\<close> leaves exactly the products that contain no other
  product. The choice is the same for every order in which the final products are
  listed, and the cover returned is the essential implicants followed by the implicants
  of the chosen product in the order of their indices.
\<close>

theorem product_choice:
  "(\<forall>lc products. products \<noteq> [] \<longrightarrow>
      choose_product lc products \<in> set products \<and>
      (\<forall>p \<in> set products. product_cost lc (choose_product lc products) \<le> product_cost lc p) \<and>
      (\<forall>p \<in> set products. product_cost lc p = product_cost lc (choose_product lc products) \<longrightarrow>
         sorted_list_of_set (choose_product lc products) \<le> sorted_list_of_set p)) \<and>
   (\<forall>lc p q. product_cost lc p \<le> product_cost lc q \<longleftrightarrow>
      card p < card q \<or> (card p = card q \<and> (\<Sum>i \<in> p. lc ! i) \<le> (\<Sum>i \<in> q. lc ! i))) \<and>
   (\<forall>pis i. i < length pis \<and> 0 \<le> snd (pis ! i) \<longrightarrow>
      literal_counts_of pis ! i = card {k. bit (snd (pis ! i)) k}) \<and>
   (\<forall>lc prods. (\<forall>p \<in> set prods. finite p) \<longrightarrow>
      set (reduce_products lc prods) = {p \<in> set prods. \<forall>q \<in> set prods. \<not> q \<subset> p}) \<and>
   (\<forall>lc products products'. products \<noteq> [] \<and> set products = set products' \<and>
      (\<forall>p \<in> set products. finite p) \<longrightarrow>
      choose_product lc products = choose_product lc products') \<and>
   (\<forall>pis ms n essential cbe products.
      pis \<noteq> [] \<and> ms \<noteq> [] \<and> essentials (coverage_table pis ms n) ms = (essential, cbe) \<and>
      filter (\<lambda>m. m \<notin> cbe) ms \<noteq> [] \<and>
      build_clauses (coverage_table pis ms n) (index_table pis) essential
        (filter (\<lambda>m. m \<notin> cbe) ms) \<noteq> [] \<and>
      petrick (literal_counts_of pis)
        (build_clauses (coverage_table pis ms n) (index_table pis) essential
           (filter (\<lambda>m. m \<notin> cbe) ms)) [{}] = Some products \<longrightarrow>
      essential_prime_implicant_cover pis ms n =
        essential @ map (\<lambda>i. pis ! i)
          (sorted_list_of_set (choose_product (literal_counts_of pis) products)))"
proof -
  have A: "\<forall>lc products. products \<noteq> [] \<longrightarrow>
      choose_product lc products \<in> set products \<and>
      (\<forall>p \<in> set products. product_cost lc (choose_product lc products) \<le> product_cost lc p) \<and>
      (\<forall>p \<in> set products. product_cost lc p = product_cost lc (choose_product lc products) \<longrightarrow>
         sorted_list_of_set (choose_product lc products) \<le> sorted_list_of_set p)"
  proof (intro allI impI conjI ballI)
    fix lc :: "nat list" and products :: "nat set list"
    assume "products \<noteq> []"
    then show "choose_product lc products \<in> set products" by (rule choose_product_in)
  next
    fix lc :: "nat list" and products :: "nat set list" and p
    assume "p \<in> set products"
    then show "product_cost lc (choose_product lc products) \<le> product_cost lc p"
      by (rule choose_product_least_cost)
  next
    fix lc :: "nat list" and products :: "nat set list" and p
    assume "p \<in> set products" "product_cost lc p = product_cost lc (choose_product lc products)"
    then show "sorted_list_of_set (choose_product lc products) \<le> sorted_list_of_set p"
      by (rule choose_product_least_tuple)
  qed
  have B: "\<forall>lc p q. product_cost lc p \<le> product_cost lc q \<longleftrightarrow>
      card p < card q \<or> (card p = card q \<and> (\<Sum>i \<in> p. lc ! i) \<le> (\<Sum>i \<in> q. lc ! i))"
    by (auto simp: product_cost_def less_eq_prod_def)
  have C: "\<forall>pis i. i < length pis \<and> 0 \<le> snd (pis ! i) \<longrightarrow>
      literal_counts_of pis ! i = card {k. bit (snd (pis ! i)) k}"
    by (intro allI impI literal_counts_nth; elim conjE; assumption)
  have D: "\<forall>lc prods. (\<forall>p \<in> set prods. finite p) \<longrightarrow>
      set (reduce_products lc prods) = {p \<in> set prods. \<forall>q \<in> set prods. \<not> q \<subset> p}"
    by (intro allI impI set_reduce_products)
  have E: "\<forall>lc products products'. products \<noteq> [] \<and> set products = set products' \<and>
      (\<forall>p \<in> set products. finite p) \<longrightarrow>
      choose_product lc products = choose_product lc products'"
    by (intro allI impI choose_product_unique; elim conjE; assumption)
  have F: "\<forall>pis ms n essential cbe products.
      pis \<noteq> [] \<and> ms \<noteq> [] \<and> essentials (coverage_table pis ms n) ms = (essential, cbe) \<and>
      filter (\<lambda>m. m \<notin> cbe) ms \<noteq> [] \<and>
      build_clauses (coverage_table pis ms n) (index_table pis) essential
        (filter (\<lambda>m. m \<notin> cbe) ms) \<noteq> [] \<and>
      petrick (literal_counts_of pis)
        (build_clauses (coverage_table pis ms n) (index_table pis) essential
           (filter (\<lambda>m. m \<notin> cbe) ms)) [{}] = Some products \<longrightarrow>
      essential_prime_implicant_cover pis ms n =
        essential @ map (\<lambda>i. pis ! i)
          (sorted_list_of_set (choose_product (literal_counts_of pis) products))"
    by (intro allI impI) (simp add: essential_prime_implicant_cover_def Let_def)
  from A B C D E F show ?thesis by (intro conjI)
qed

theorem product_choice_witness:
  "choose_product [2, 2, 1, 1] [{0, 1}, {2, 3}, {1, 3}, {0, 3, 2}] = {2, 3} \<and>
   product_cost [2, 2, 1, 1] {2, 3} = (2, 2) \<and>
   product_cost [2, 2, 1, 1] {0, 1} = (2, 4) \<and>
   literal_counts_of [(5, 5), (6, 6), (1, 1), (2, 2)] = [2, 2, 1, 1] \<and>
   set (reduce_products [2, 2, 1, 1] [{0, 1}, {0}, {1, 2}]) = {{0}, {1, 2}} \<and>
   choose_product [2, 2, 1, 1] [{2, 3}, {0, 1}] = choose_product [2, 2, 1, 1] [{0, 1}, {2, 3}]"
proof -
  let ?lc = "[2, 2, 1, 1 :: nat]" and ?ps = "[{0, 1}, {2, 3}, {1, 3}, {0, 3, 2 :: nat}]"
  have ne: "?ps \<noteq> []" by simp
  have e1: "choose_product ?lc ?ps = {2, 3}" by code_simp
  have e2: "product_cost ?lc {2, 3} = (2, 2)" "product_cost ?lc {0, 1} = (2, 4)" by code_simp+
  have e3: "literal_counts_of [(5, 5), (6, 6), (1, 1), (2, 2)] = [2, 2, 1, 1]" by code_simp
  have e4: "reduce_products ?lc [{0, 1}, {0}, {1, 2}] = [{0}, {1, 2}]" by code_simp
  have e5: "choose_product ?lc [{2, 3}, {0, 1}] = choose_product ?lc [{0, 1}, {2, 3}]"
  proof -
    have "[{2, 3}, {0, 1 :: nat}] \<noteq> [] \<and> set [{2, 3}, {0, 1 :: nat}] = set [{0, 1}, {2, 3}] \<and>
      (\<forall>p \<in> set [{2, 3}, {0, 1 :: nat}]. finite p)" by auto
    with product_choice [THEN conjunct2, THEN conjunct2, THEN conjunct2, THEN conjunct2, THEN conjunct1,
        rule_format,
        of "[{2, 3}, {0, 1}]" "[{0, 1}, {2, 3}]" ?lc]
    show ?thesis .
  qed
  have e4': "set (reduce_products ?lc [{0, 1}, {0}, {1, 2}]) = {{0}, {1, 2}}" unfolding e4 by simp
  from e1 e2 e3 e4' e5 show ?thesis by (intro conjI)
qed

end
